theory Spec2Isabelle
  imports Main "HOL-Library.Word"
begin

section \<open>The chunker of main.go\<close>

text \<open>
  The program splits one input file into numbered chunk files, by lines, by bytes
  (``chars'') or by approximate tokens. The three strategies are the methods
  \<^verbatim>\<open>ChunkByLines\<close>, \<^verbatim>\<open>ChunkByCharacters\<close> and \<^verbatim>\<open>ChunkByTokens\<close> of \<^verbatim>\<open>Chunker\<close>.

  What a run does to the outside world is the sequence of chunk files it creates. A run
  is therefore modelled as a pair: the list of chunks handed to the writer, in order,
  and the way the run ended.
\<close>

subsection \<open>Configuration\<close>

text \<open>
  \<^verbatim>\<open>ChunkConfig\<close>, with the fields of the Go struct. Go's \<^verbatim>\<open>int\<close> is a 64-bit
  two's complement integer on the platforms the tool is built for, so both sizes are
  64-bit words, read as signed numbers.
\<close>

record ChunkConfig =
  InputFile :: string
  OutputDir :: string
  ChunkType :: string
  ChunkSize :: "64 word"
  OverlapSize :: "64 word"
  AddMetadata :: bool
  Prefix :: string

definition chunkSize :: "ChunkConfig \<Rightarrow> int" where
  "chunkSize cfg = sint (ChunkSize cfg)"

definition overlapSize :: "ChunkConfig \<Rightarrow> int" where
  "overlapSize cfg = sint (OverlapSize cfg)"

text \<open>
  Positions, lengths and counters are kept as mathematical integers. The additions and
  subtractions of the source that involve a configured size are done in 64 bits and
  wrap around, as Go's do.
\<close>

definition add64 :: "int \<Rightarrow> int \<Rightarrow> int" where
  "add64 a b = sint (word_of_int a + word_of_int b :: 64 word)"

definition sub64 :: "int \<Rightarrow> int \<Rightarrow> int" where
  "sub64 a b = sint (word_of_int a - word_of_int b :: 64 word)"

subsection \<open>Errors, outcomes and written chunks\<close>

datatype error = OpenError | ReadError | ScanError | CreateError

text \<open>
  How a run ends: it returns Go's \<^verbatim>\<open>error\<close> value (\<open>None\<close> is \<^verbatim>\<open>nil\<close>), it panics
  (a slice or index out of range), or it is still inside its loop when the fuel given
  to the model is used up.
\<close>

datatype outcome = Return "error option" | Panic | Unfinished

text \<open>The arguments of one successful call of \<^verbatim>\<open>writeChunk\<close>.\<close>

record line_chunk =
  chunkNumber :: int
  lines :: "string list"
  startLine :: int
  endLine :: int

text \<open>
  The arguments of one successful call of \<^verbatim>\<open>writeTextChunk\<close>. The content is a Go
  string: a list of bytes in character mode, and in token mode the list of code points
  that ranging over it yields.
\<close>

record 'a text_chunk =
  chunkNo :: int
  content :: "'a list"
  startPos :: int
  endPos :: int

text \<open>
  Both writers fail only when \<^verbatim>\<open>os.Create\<close> fails. Whether the file of chunk \<open>n\<close>
  can be created is up to the environment: the parameter \<open>fails\<close>.
\<close>

definition writeChunk ::
  "(int \<Rightarrow> bool) \<Rightarrow> string list \<Rightarrow> int \<Rightarrow> int \<Rightarrow> int \<Rightarrow> error + line_chunk" where
  "writeChunk fails ls n s e =
     (if fails n then Inl CreateError
      else Inr \<lparr>chunkNumber = n, lines = ls, startLine = s, endLine = e\<rparr>)"

definition writeTextChunk ::
  "(int \<Rightarrow> bool) \<Rightarrow> 'a list \<Rightarrow> int \<Rightarrow> int \<Rightarrow> int \<Rightarrow> error + 'a text_chunk" where
  "writeTextChunk fails c n s e =
     (if fails n then Inl CreateError
      else Inr \<lparr>chunkNo = n, content = c, startPos = s, endPos = e\<rparr>)"

fun emit :: "'c \<Rightarrow> 'c list \<times> 'r \<Rightarrow> 'c list \<times> 'r" where
  "emit c (ws, r) = (c # ws, r)"

subsection \<open>ChunkByLines\<close>

text \<open>
  The scanner is the list of lines \<^verbatim>\<open>scanner.Scan\<close> yields before it returns false.
  The loop either stops at a failed write or runs out of lines, and then leaves its
  buffer, its chunk number and its line number to the code after it.
\<close>

datatype loop_exit = Abort error | Exhausted "string list" int int

text \<open>``Start new chunk with overlap from previous chunk'': an empty buffer is seeded.\<close>

definition seed :: "string list \<Rightarrow> string list \<Rightarrow> string list" where
  "seed currentChunk previousOverlap =
     (if length currentChunk = 0 \<and> length previousOverlap > 0
      then currentChunk @ previousOverlap else currentChunk)"

text \<open>``Prepare overlap for next chunk'': the tail of the chunk just written, or nil.\<close>

definition carry :: "ChunkConfig \<Rightarrow> string list \<Rightarrow> string list" where
  "carry cfg currentChunk =
     (if overlapSize cfg > 0 \<and> int (length currentChunk) > overlapSize cfg
      then drop (nat (int (length currentChunk) - overlapSize cfg)) currentChunk
      else [])"

fun lines_loop ::
  "ChunkConfig \<Rightarrow> (int \<Rightarrow> bool) \<Rightarrow> string list \<Rightarrow> string list \<Rightarrow> string list \<Rightarrow> int \<Rightarrow> int
    \<Rightarrow> line_chunk list \<times> loop_exit" where
  "lines_loop cfg fails [] currentChunk previousOverlap n lineNumber =
     ([], Exhausted currentChunk n lineNumber)"
| "lines_loop cfg fails (line # rest) currentChunk previousOverlap n lineNumber =
     (if int (length (seed currentChunk previousOverlap @ [line])) \<ge> chunkSize cfg then
        (case writeChunk fails (seed currentChunk previousOverlap @ [line]) n
                ((lineNumber + 1) - int (length (seed currentChunk previousOverlap @ [line])) + 1)
                (lineNumber + 1) of
           Inl err \<Rightarrow> ([], Abort err)
         | Inr c \<Rightarrow>
             emit c (lines_loop cfg fails rest []
               (carry cfg (seed currentChunk previousOverlap @ [line])) (n + 1) (lineNumber + 1)))
      else lines_loop cfg fails rest (seed currentChunk previousOverlap @ [line])
             previousOverlap n (lineNumber + 1))"

text \<open>
  The code after the loop: the remaining buffer is written, then the scanner's error
  is returned.
\<close>

definition lines_finish ::
  "(int \<Rightarrow> bool) \<Rightarrow> error option \<Rightarrow> line_chunk list \<times> loop_exit \<Rightarrow> line_chunk list \<times> outcome" where
  "lines_finish fails scanErr r =
     (case r of
        (ws, Abort err) \<Rightarrow> (ws, Return (Some err))
      | (ws, Exhausted currentChunk n lineNumber) \<Rightarrow>
          if length currentChunk > 0 then
            (case writeChunk fails currentChunk n
                    (lineNumber - int (length currentChunk) + 1) lineNumber of
               Inl err \<Rightarrow> (ws, Return (Some err))
             | Inr c \<Rightarrow> (ws @ [c], Return scanErr))
          else (ws, Return scanErr))"

text \<open>
  The input of \<^verbatim>\<open>ChunkByLines\<close>: \<open>None\<close> when the file cannot be opened, otherwise the
  lines the scanner yields and the value of \<^verbatim>\<open>scanner.Err()\<close> after the last of them.
\<close>

type_synonym scanned = "(string list \<times> error option) option"

definition ChunkByLines ::
  "ChunkConfig \<Rightarrow> (int \<Rightarrow> bool) \<Rightarrow> scanned \<Rightarrow> line_chunk list \<times> outcome" where
  "ChunkByLines cfg fails src =
     (case src of
        None \<Rightarrow> ([], Return (Some OpenError))
      | Some (ls, scanErr) \<Rightarrow> lines_finish fails scanErr (lines_loop cfg fails ls [] [] 1 0))"

subsection \<open>Slices and the cursor\<close>

text \<open>
  \<^verbatim>\<open>xs[s:e]\<close> panics unless \<open>0 \<le> s \<le> e \<le> len\<close>. (For a slice of a slice Go compares
  \<open>e\<close> with the capacity; both loops clamp \<open>e\<close> to the length first.)
\<close>

definition slice :: "'a list \<Rightarrow> int \<Rightarrow> int \<Rightarrow> 'a list option" where
  "slice xs s e =
     (if 0 \<le> s \<and> s \<le> e \<and> e \<le> int (length xs)
      then Some (take (nat (e - s)) (drop (nat s) xs)) else None)"

text \<open>The tentative end of a window: \<^verbatim>\<open>start + ChunkSize\<close>, cut at the length.\<close>

definition window_end :: "ChunkConfig \<Rightarrow> int \<Rightarrow> int \<Rightarrow> int" where
  "window_end cfg len start =
     (let e = add64 start (chunkSize cfg) in if e > len then len else e)"

text \<open>``Move start position with overlap'': the same lines in both loops.\<close>

definition advance :: "ChunkConfig \<Rightarrow> int \<Rightarrow> int" where
  "advance cfg e =
     (if overlapSize cfg > 0
      then (let s = sub64 e (overlapSize cfg) in if s < 0 then e else s)
      else e)"

subsection \<open>ChunkByCharacters\<close>

definition is_ws :: "char \<Rightarrow> bool" where
  "is_ws c = (c = CHR '' '' \<or> c = CHR 0x0A \<or> c = CHR 0x09)"

text \<open>
  The backward search for a word boundary, from \<open>i\<close> down: the first index holding a
  blank, newline or tab becomes the end; when the search leaves its window the end
  stays \<open>e\<close>. \<open>None\<close> is the panic of an index out of range.
\<close>

function snap :: "string \<Rightarrow> int \<Rightarrow> int \<Rightarrow> int \<Rightarrow> int option" where
  "snap text start e i =
     (if i > start \<and> i > sub64 e 100 then
        (if i < 0 \<or> i \<ge> int (length text) then None
         else if is_ws (text ! nat i) then Some i
         else snap text start e (i - 1))
      else Some e)"
  by pat_completeness auto
termination
  by (relation "measure (\<lambda>(text, start, e, i). nat (i - start))") auto

definition chunk_end :: "ChunkConfig \<Rightarrow> string \<Rightarrow> int \<Rightarrow> int option" where
  "chunk_end cfg text start =
     (let e = window_end cfg (int (length text)) start
      in if e < int (length text) then snap text start e e else Some e)"

fun chars_loop ::
  "nat \<Rightarrow> ChunkConfig \<Rightarrow> (int \<Rightarrow> bool) \<Rightarrow> string \<Rightarrow> int \<Rightarrow> int
    \<Rightarrow> char text_chunk list \<times> outcome" where
  "chars_loop 0 cfg fails text start n =
     (if start < int (length text) then ([], Unfinished) else ([], Return None))"
| "chars_loop (Suc fuel) cfg fails text start n =
     (if start < int (length text) then
        (case chunk_end cfg text start of
           None \<Rightarrow> ([], Panic)
         | Some e \<Rightarrow>
             (case slice text start e of
                None \<Rightarrow> ([], Panic)
              | Some chunk \<Rightarrow>
                  (case writeTextChunk fails chunk n start e of
                     Inl err \<Rightarrow> ([], Return (Some err))
                   | Inr c \<Rightarrow> emit c (chars_loop fuel cfg fails text (advance cfg e) (n + 1)))))
      else ([], Return None))"

text \<open>
  The file is \<open>None\<close> when \<^verbatim>\<open>os.ReadFile\<close> fails, otherwise its bytes. \<open>fuel\<close> bounds the
  number of iterations of the loop.
\<close>

definition ChunkByCharacters ::
  "nat \<Rightarrow> ChunkConfig \<Rightarrow> (int \<Rightarrow> bool) \<Rightarrow> string option \<Rightarrow> char text_chunk list \<times> outcome" where
  "ChunkByCharacters fuel cfg fails file =
     (case file of
        None \<Rightarrow> ([], Return (Some ReadError))
      | Some text \<Rightarrow> chars_loop fuel cfg fails text 0 1)"

subsection \<open>tokenize and ChunkByTokens\<close>

text \<open>
  \<^verbatim>\<open>for _, char := range text\<close> walks over the code points of the text, so the
  tokenizer works on a list of runes; a token is the list of runes written into the
  builder. Ranging over what \<^verbatim>\<open>WriteRune\<close> wrote yields the runes written, so in
  token mode a string built by the program is the list of its runes.
\<close>

type_synonym rune = int

text \<open>
  The runes the \<^verbatim>\<open>switch\<close> tests for, by code point: blank 32, tab 9 and newline 10;
  then \<^verbatim>\<open>.\<close> 46, \<^verbatim>\<open>,\<close> 44, \<^verbatim>\<open>;\<close> 59, \<^verbatim>\<open>:\<close> 58, \<^verbatim>\<open>!\<close> 33, \<^verbatim>\<open>?\<close> 63, the parentheses 40
  and 41, the brackets 91 and 93 and the braces 123 and 125.
\<close>

definition is_space :: "rune \<Rightarrow> bool" where
  "is_space r = (r = 32 \<or> r = 9 \<or> r = 10)"

definition is_punct :: "rune \<Rightarrow> bool" where
  "is_punct r =
     (r = 46 \<or> r = 44 \<or> r = 59 \<or> r = 58 \<or> r = 33 \<or> r = 63 \<or>
      r = 40 \<or> r = 41 \<or> r = 91 \<or> r = 93 \<or> r = 123 \<or> r = 125)"

fun tokenize_loop :: "rune list \<Rightarrow> rune list list \<Rightarrow> rune list \<Rightarrow> rune list list" where
  "tokenize_loop [] tokens current =
     (if length current > 0 then tokens @ [current] else tokens)"
| "tokenize_loop (r # rs) tokens current =
     (if is_space r then
        (if length current > 0 then tokenize_loop rs (tokens @ [current]) []
         else tokenize_loop rs tokens current)
      else if is_punct r then
        (if length current > 0 then tokenize_loop rs ((tokens @ [current]) @ [[r]]) []
         else tokenize_loop rs (tokens @ [[r]]) current)
      else tokenize_loop rs tokens (current @ [r]))"

definition tokenize :: "rune list \<Rightarrow> rune list list" where
  "tokenize text = tokenize_loop text [] []"

text \<open>\<^verbatim>\<open>strings.Join\<close>.\<close>

fun join :: "'a list list \<Rightarrow> 'a list \<Rightarrow> 'a list" where
  "join [] sep = []"
| "join [x] sep = x"
| "join (x # y # ys) sep = x @ sep @ join (y # ys) sep"

fun tokens_loop ::
  "nat \<Rightarrow> ChunkConfig \<Rightarrow> (int \<Rightarrow> bool) \<Rightarrow> rune list list \<Rightarrow> int \<Rightarrow> int
    \<Rightarrow> rune text_chunk list \<times> outcome" where
  "tokens_loop 0 cfg fails tokens start n =
     (if start < int (length tokens) then ([], Unfinished) else ([], Return None))"
| "tokens_loop (Suc fuel) cfg fails tokens start n =
     (if start < int (length tokens) then
        (let e = window_end cfg (int (length tokens)) start
         in case slice tokens start e of
              None \<Rightarrow> ([], Panic)
            | Some chunkTokens \<Rightarrow>
                (case writeTextChunk fails (join chunkTokens [32]) n start e of
                   Inl err \<Rightarrow> ([], Return (Some err))
                 | Inr c \<Rightarrow> emit c (tokens_loop fuel cfg fails tokens (advance cfg e) (n + 1))))
      else ([], Return None))"

definition ChunkByTokens ::
  "nat \<Rightarrow> ChunkConfig \<Rightarrow> (int \<Rightarrow> bool) \<Rightarrow> rune list option \<Rightarrow> rune text_chunk list \<times> outcome" where
  "ChunkByTokens fuel cfg fails file =
     (case file of
        None \<Rightarrow> ([], Return (Some ReadError))
      | Some text \<Rightarrow> tokens_loop fuel cfg fails (tokenize text) 0 1)"

text \<open>The runes of an ASCII text: one per byte.\<close>

definition runes :: "string \<Rightarrow> rune list" where
  "runes s = map of_char s"

section \<open>Notions the properties are stated with\<close>

text \<open>
  A configuration as \<^verbatim>\<open>main\<close> builds it from the flags \<^verbatim>\<open>-type\<close>, \<^verbatim>\<open>-size\<close> and
  \<^verbatim>\<open>-overlap\<close> for the input \<^verbatim>\<open>input.txt\<close>, the other flags at their defaults.
\<close>

definition flags :: "string \<Rightarrow> 64 word \<Rightarrow> 64 word \<Rightarrow> ChunkConfig" where
  "flags ty sz ov =
     \<lparr>InputFile = ''input.txt'', OutputDir = ''chunks'', ChunkType = ty, ChunkSize = sz,
      OverlapSize = ov, AddMetadata = True, Prefix = ''input''\<rparr>"

text \<open>
  Adjacent chunks overlap by \<open>k\<close> lines: the last \<open>k\<close> lines of each chunk are the
  first \<open>k\<close> lines of the chunk after it.
\<close>

fun overlap_chain :: "nat \<Rightarrow> string list list \<Rightarrow> bool" where
  "overlap_chain k (c # d # cs) =
     (drop (length c - k) c = take k d \<and> overlap_chain k (d # cs))"
| "overlap_chain k cs = True"

text \<open>
  The boundary before byte \<open>e\<close> splits a run of non-whitespace bytes when the bytes on
  both sides of it are not whitespace. The run it lies in then reaches back from byte
  \<open>e - 1\<close> and forward from byte \<open>e\<close> as far as no whitespace occurs.
\<close>

definition splits_run :: "string \<Rightarrow> int \<Rightarrow> bool" where
  "splits_run text e =
     (0 < e \<and> e < int (length text) \<and> \<not> is_ws (text ! nat (e - 1)) \<and> \<not> is_ws (text ! nat e))"

definition run_length :: "string \<Rightarrow> int \<Rightarrow> nat" where
  "run_length text e =
     length (takeWhile (\<lambda>c. \<not> is_ws c) (rev (take (nat e) text))) +
     length (takeWhile (\<lambda>c. \<not> is_ws c) (drop (nat e) text))"

text \<open>A text with a run of exactly 100 bytes: a blank, 100 letters, a blank and a letter.\<close>

definition hundred :: string where
  "hundred = CHR '' '' # replicate 100 CHR ''a'' @ '' b''"

text \<open>
  The two kinds of token the tokenizer produces: a non-empty run of runes that are
  neither whitespace nor punctuation, and a single punctuation rune.
\<close>

definition is_word_rune :: "rune \<Rightarrow> bool" where
  "is_word_rune r = (\<not> is_space r \<and> \<not> is_punct r)"

definition wf_token :: "rune list \<Rightarrow> bool" where
  "wf_token t = ((t \<noteq> [] \<and> list_all is_word_rune t) \<or> (length t = 1 \<and> list_all is_punct t))"

section \<open>Arithmetic in 64 bits\<close>

lemma wrap_plain:
  "- (2 ^ 63) \<le> x \<Longrightarrow> x < 2 ^ 63 \<Longrightarrow> sint (word_of_int x :: 64 word) = x"
  by (simp only: sint_sbintrunc') (simp add: signed_take_bit_int_eq_self)

lemma add64_plain: "- (2 ^ 63) \<le> a + b \<Longrightarrow> a + b < 2 ^ 63 \<Longrightarrow> add64 a b = a + b"
  unfolding add64_def of_int_add [symmetric] by (rule wrap_plain)

lemma sub64_plain: "- (2 ^ 63) \<le> a - b \<Longrightarrow> a - b < 2 ^ 63 \<Longrightarrow> sub64 a b = a - b"
  unfolding sub64_def of_int_diff [symmetric] by (rule wrap_plain)

lemma chunkSize_range: "- (2 ^ 63) \<le> chunkSize cfg \<and> chunkSize cfg < 2 ^ 63"
  using sint_ge [of "ChunkSize cfg"] sint_lt [of "ChunkSize cfg"] by (simp add: chunkSize_def)

lemma overlapSize_range: "- (2 ^ 63) \<le> overlapSize cfg \<and> overlapSize cfg < 2 ^ 63"
  using sint_ge [of "OverlapSize cfg"] sint_lt [of "OverlapSize cfg"]
  by (simp add: overlapSize_def)

section \<open>Lines mode\<close>

lemma seed_nonempty [simp]: "cur \<noteq> [] \<Longrightarrow> seed cur prev = cur"
  by (simp add: seed_def)

lemma seed_Nil: "seed [] prev = prev"
  by (simp add: seed_def)

lemma length_seed: "length cur < m \<Longrightarrow> length prev < m \<Longrightarrow> length (seed cur prev) < m"
  by (simp add: seed_def)

lemma length_carry:
  "0 \<le> overlapSize cfg \<Longrightarrow> overlapSize cfg < int (length full) \<Longrightarrow> int (length (carry cfg full)) = overlapSize cfg"
  by (auto simp: carry_def)

text \<open>Every chunk written inside the loop holds exactly \<^verbatim>\<open>ChunkSize\<close> lines.\<close>

lemma lines_loop_full:
  "int (length cur) < chunkSize cfg \<Longrightarrow> int (length prev) < chunkSize cfg \<Longrightarrow> 0 \<le> overlapSize cfg \<Longrightarrow>
   overlapSize cfg < chunkSize cfg \<Longrightarrow>
   c \<in> set (fst (lines_loop cfg fails ls cur prev n ln)) \<Longrightarrow> int (length (lines c)) = chunkSize cfg"
proof (induction ls arbitrary: cur prev n ln)
  case Nil
  then show ?case by simp
next
  case (Cons line rest)
  let ?full = "seed cur prev @ [line]"
  have len: "int (length ?full) \<le> chunkSize cfg"
    using Cons.prems(1,2) by (simp add: seed_def)
  show ?case
  proof (cases "chunkSize cfg \<le> int (length ?full)")
    case True
    then have eq: "int (length ?full) = chunkSize cfg" using len by simp
    show ?thesis
    proof (cases "fails n")
      case True
      with Cons.prems(5) \<open>chunkSize cfg \<le> int (length ?full)\<close> show ?thesis
        by (simp add: writeChunk_def)
    next
      case False
      obtain ws r where rec: "lines_loop cfg fails rest [] (carry cfg ?full) (n + 1) (ln + 1) = (ws, r)"
        by (cases "lines_loop cfg fails rest [] (carry cfg ?full) (n + 1) (ln + 1)")
      have "int (length (carry cfg ?full)) < chunkSize cfg"
        using Cons.prems(3,4) eq length_carry [of cfg ?full] by (cases "overlapSize cfg = 0") (auto simp: carry_def)
      then have ih: "c \<in> set ws \<Longrightarrow> int (length (lines c)) = chunkSize cfg"
        using Cons.IH [of "[]" "carry cfg ?full" "n + 1" "ln + 1"] Cons.prems(1,3,4) rec by simp
      from Cons.prems(5) True False rec
      have "c = \<lparr>chunkNumber = n, lines = ?full, startLine = ln + 1 - int (length ?full) + 1, endLine = ln + 1\<rparr> \<or> c \<in> set ws"
        by (simp add: writeChunk_def)
      then show ?thesis using eq ih by auto
    qed
  next
    case False
    then have "c \<in> set (fst (lines_loop cfg fails rest ?full prev n (ln + 1)))"
      using Cons.prems(5) by simp
    moreover have "int (length ?full) < chunkSize cfg" using False by simp
    ultimately show ?thesis
      using Cons.IH [of ?full prev n "ln + 1"] Cons.prems(2,3,4) by simp
  qed
qed


lemma fst_lines_finish:
  "fst (lines_finish fails err (ws, x)) = ws \<or> (\<exists>c. fst (lines_finish fails err (ws, x)) = ws @ [c])"
  by (cases x) (auto simp: lines_finish_def split: sum.splits)

lemma written_ChunkByLines:
  "\<exists>ws tl. fst (ChunkByLines cfg fails (Some (ls, err))) = ws @ tl \<and> length tl \<le> 1 \<and>
     ws = fst (lines_loop cfg fails ls [] [] 1 0)"
proof -
  obtain ws x where r: "lines_loop cfg fails ls [] [] 1 0 = (ws, x)"
    by (cases "lines_loop cfg fails ls [] [] 1 0")
  from fst_lines_finish [of fails err ws x] show ?thesis
    by (auto simp: ChunkByLines_def r)
qed

text \<open>
  Claim C10. In lines mode, with an overlap that is not negative and smaller than the
  chunk size, every chunk that is followed by another chunk holds exactly
  \<^verbatim>\<open>ChunkSize\<close> lines: the lines carried over from the chunk before count towards the
  size. Only the last chunk written can be shorter. This holds whatever the scanner
  and the writer do.
\<close>

theorem lines_chunks_full:
  assumes "0 \<le> overlapSize cfg" and "overlapSize cfg < chunkSize cfg"
    and "Suc i < length (fst (ChunkByLines cfg fails src))"
  shows "int (length (lines (fst (ChunkByLines cfg fails src) ! i))) = chunkSize cfg"
proof (cases src)
  case None
  with assms(3) show ?thesis by (simp add: ChunkByLines_def)
next
  case (Some p)
  obtain ls err where p: "p = (ls, err)" by (cases p)
  obtain ws tl where w: "fst (ChunkByLines cfg fails src) = ws @ tl" "length tl \<le> 1"
      "ws = fst (lines_loop cfg fails ls [] [] 1 0)"
    using written_ChunkByLines [of cfg fails ls err] Some p by auto
  from assms(3) w(1,2) have i: "i < length ws" by simp
  then have "ws ! i \<in> set ws" by simp
  then have "int (length (lines (ws ! i))) = chunkSize cfg"
    using lines_loop_full [of "[]" cfg "[]" "ws ! i" fails ls 1 0] assms(1,2) w(3) by simp
  then show ?thesis using w(1) i by (simp add: nth_append)
qed

text \<open>An input of eight lines, three lines a chunk, one line of overlap.\<close>

theorem lines_chunks_full_witness:
  "0 \<le> overlapSize (flags ''lines'' 3 1) \<and> overlapSize (flags ''lines'' 3 1) < chunkSize (flags ''lines'' 3 1) \<and>
   Suc 0 < length (fst (ChunkByLines (flags ''lines'' 3 1) (\<lambda>n. False)
       (Some ([''a'', ''b'', ''c'', ''d'', ''e'', ''f'', ''g'', ''h''], None)))) \<and>
   int (length (lines (fst (ChunkByLines (flags ''lines'' 3 1) (\<lambda>n. False)
       (Some ([''a'', ''b'', ''c'', ''d'', ''e'', ''f'', ''g'', ''h''], None))) ! 0))) = chunkSize (flags ''lines'' 3 1)"
proof -
  have a: "0 \<le> overlapSize (flags ''lines'' 3 1)"
    and b: "overlapSize (flags ''lines'' 3 1) < chunkSize (flags ''lines'' 3 1)"
    by (simp_all add: flags_def overlapSize_def chunkSize_def)
  have c: "Suc 0 < length (fst (ChunkByLines (flags ''lines'' 3 1) (\<lambda>n. False)
       (Some ([''a'', ''b'', ''c'', ''d'', ''e'', ''f'', ''g'', ''h''], None))))"
    by (simp add: ChunkByLines_def lines_finish_def writeChunk_def seed_def carry_def
        flags_def overlapSize_def chunkSize_def)
  from lines_chunks_full [OF a b c] a b c show ?thesis by blast
qed

section \<open>Lines mode: overlap, reassembly, the scenario and scan errors\<close>

lemma lines_finish_emit:
  "lines_finish fails err (emit c r) = emit c (lines_finish fails err r)"
proof -
  obtain ws x where r: "r = (ws, x)" by (cases r)
  show ?thesis
    by (cases x) (simp_all add: r lines_finish_def split: sum.splits)
qed

lemma fst_emit [simp]: "fst (emit c r) = c # fst r"
  by (cases r) simp

lemma snd_emit [simp]: "snd (emit c r) = snd r"
  by (cases r) simp

lemma lines_finish_Nil:
  "lines_finish fails err ([], Exhausted cur n ln) =
     (if cur = [] then ([], Return err)
      else if fails n then ([], Return (Some CreateError))
      else ([\<lparr>chunkNumber = n, lines = cur, startLine = ln - int (length cur) + 1, endLine = ln\<rparr>],
            Return err))"
  by (simp add: lines_finish_def writeChunk_def)

lemma lines_loop_Cons_flush:
  "chunkSize cfg \<le> int (length (seed cur prev @ [line])) \<Longrightarrow> \<not> fails n \<Longrightarrow>
   lines_loop cfg fails (line # rest) cur prev n ln =
     emit \<lparr>chunkNumber = n, lines = seed cur prev @ [line],
            startLine = ln + 1 - int (length (seed cur prev @ [line])) + 1, endLine = ln + 1\<rparr>
       (lines_loop cfg fails rest [] (carry cfg (seed cur prev @ [line])) (n + 1) (ln + 1))"
  by (simp add: writeChunk_def)

lemma lines_loop_Cons_fail:
  "chunkSize cfg \<le> int (length (seed cur prev @ [line])) \<Longrightarrow> fails n \<Longrightarrow>
   lines_loop cfg fails (line # rest) cur prev n ln = ([], Abort CreateError)"
  by (simp add: writeChunk_def)

lemma lines_loop_Cons_keep:
  "int (length (seed cur prev @ [line])) < chunkSize cfg \<Longrightarrow>
   lines_loop cfg fails (line # rest) cur prev n ln =
     lines_loop cfg fails rest (seed cur prev @ [line]) prev n (ln + 1)"
  by simp

lemma carry_full:
  "0 < overlapSize cfg \<Longrightarrow> overlapSize cfg < int (length full) \<Longrightarrow>
   carry cfg full = drop (length full - nat (overlapSize cfg)) full"
  by (simp add: carry_def nat_diff_distrib')

lemma carry_none: "overlapSize cfg \<le> 0 \<Longrightarrow> carry cfg full = []"
  by (simp add: carry_def)

lemma length_drop_tail: "k \<le> length xs \<Longrightarrow> length (drop (length xs - k) xs) = k"
  by simp

text \<open>
  From any state of the loop, the chunks written from there on form a chain, and the
  first of them starts with the seeded buffer.
\<close>

lemma lines_chain:
  assumes "0 < overlapSize cfg" and "overlapSize cfg < chunkSize cfg"
    and "int (length (seed cur prev)) < chunkSize cfg"
  shows "overlap_chain (nat (overlapSize cfg))
           (map lines (fst (lines_finish fails err (lines_loop cfg fails ls cur prev n ln)))) \<and>
         (\<forall>c cs. fst (lines_finish fails err (lines_loop cfg fails ls cur prev n ln)) = c # cs
            \<longrightarrow> (\<exists>ys. lines c = seed cur prev @ ys))"
  using assms(3)
proof (induction ls arbitrary: cur prev n ln)
  case Nil
  then show ?case by (auto simp: lines_finish_Nil seed_def)
next
  case (Cons line rest)
  let ?full = "seed cur prev @ [line]"
  let ?k = "nat (overlapSize cfg)"
  show ?case
  proof (cases "chunkSize cfg \<le> int (length ?full)")
    case True
    then have eq: "int (length ?full) = chunkSize cfg" using Cons.prems by simp
    show ?thesis
    proof (cases "fails n")
      case True
      then show ?thesis
        using \<open>chunkSize cfg \<le> int (length ?full)\<close>
        by (simp add: lines_loop_Cons_fail lines_finish_def del: lines_loop.simps)
    next
      case False
      let ?prev' = "carry cfg ?full"
      let ?rec = "lines_finish fails err (lines_loop cfg fails rest [] ?prev' (n + 1) (ln + 1))"
      have c: "?prev' = drop (length ?full - ?k) ?full"
        using assms(1,2) eq by (simp add: carry_full)
      have lenc: "length ?prev' = ?k"
      proof -
        have "?k \<le> length ?full" using assms(1,2) eq by linarith
        then show ?thesis unfolding c by (rule length_drop_tail)
      qed
      have ne: "?prev' \<noteq> []" using lenc assms(1) by auto
      have sd: "seed [] ?prev' = ?prev'" by (simp add: seed_def)
      have "int (length (seed [] ?prev')) < chunkSize cfg"
        unfolding sd using lenc assms(1,2) by simp
      from Cons.IH [OF this, of "n + 1" "ln + 1"]
      have ih1: "overlap_chain ?k (map lines (fst ?rec))"
        and ih2: "\<And>d ds. fst ?rec = d # ds \<Longrightarrow> \<exists>ys. lines d = ?prev' @ ys"
        unfolding sd by blast+
      have run: "lines_finish fails err (lines_loop cfg fails (line # rest) cur prev n ln) =
          emit \<lparr>chunkNumber = n, lines = ?full,
            startLine = ln + 1 - int (length ?full) + 1, endLine = ln + 1\<rparr> ?rec"
        unfolding lines_loop_Cons_flush [where fails = fails and n = n, OF True False]
        by (rule lines_finish_emit)
      have "overlap_chain ?k (?full # map lines (fst ?rec))"
      proof (cases "fst ?rec")
        case Nil
        then show ?thesis by simp
      next
        case (Cons d ds)
        from ih2 [OF Cons] obtain ys where "lines d = ?prev' @ ys" by blast
        then have "take ?k (lines d) = ?prev'" using lenc by simp
        then show ?thesis using ih1 c Cons by simp
      qed
      then show ?thesis unfolding run by simp
    qed
  next
    case False
    then have keep: "int (length ?full) < chunkSize cfg" by simp
    have sd: "seed ?full prev = ?full" by (simp add: seed_def)
    have "int (length (seed ?full prev)) < chunkSize cfg" unfolding sd using keep .
    from Cons.IH [OF this, of n "ln + 1"] show ?thesis
      unfolding sd lines_loop_Cons_keep [OF keep] by auto
  qed
qed

lemma overlap_chain_nth:
  "overlap_chain k cs \<Longrightarrow> Suc i < length cs \<Longrightarrow>
   drop (length (cs ! i) - k) (cs ! i) = take k (cs ! Suc i)"
proof (induction k cs arbitrary: i rule: overlap_chain.induct)
  case (1 k c d cs)
  then show ?case by (cases i) auto
qed simp_all


text \<open>
  Claim C7. In lines mode with an overlap \<open>k\<close>, \<open>0 < k < ChunkSize\<close>, the last \<open>k\<close> lines
  of every written chunk are the first \<open>k\<close> lines of the chunk written after it. This
  holds for every adjacent pair, the pair that ends with the final, shorter chunk
  included, and whatever the scanner and the writer do.
\<close>

theorem lines_overlap:
  assumes "0 < overlapSize cfg" and "overlapSize cfg < chunkSize cfg"
    and "Suc i < length (fst (ChunkByLines cfg fails src))"
  shows "drop (length (lines (fst (ChunkByLines cfg fails src) ! i)) - nat (overlapSize cfg))
           (lines (fst (ChunkByLines cfg fails src) ! i)) =
         take (nat (overlapSize cfg)) (lines (fst (ChunkByLines cfg fails src) ! Suc i))"
proof (cases src)
  case None
  with assms(3) show ?thesis by (simp add: ChunkByLines_def)
next
  case (Some p)
  obtain ls err where p: "p = (ls, err)" by (cases p)
  let ?ws = "fst (ChunkByLines cfg fails src)"
  have ws: "?ws = fst (lines_finish fails err (lines_loop cfg fails ls [] [] 1 0))"
    by (simp add: ChunkByLines_def Some p)
  have "int (length (seed [] [])) < chunkSize cfg"
    using assms(1,2) by (simp add: seed_def)
  from lines_chain [OF assms(1,2) this, of fails err ls 1 0]
  have "overlap_chain (nat (overlapSize cfg)) (map lines ?ws)"
    unfolding ws by blast
  from overlap_chain_nth [OF this, of i] assms(3) show ?thesis by simp
qed

text \<open>
  Eight lines, three lines a chunk, one line of overlap: the second and third chunk.
\<close>

theorem lines_overlap_witness:
  "0 < overlapSize (flags ''lines'' 3 1) \<and> overlapSize (flags ''lines'' 3 1) < chunkSize (flags ''lines'' 3 1) \<and>
   Suc 1 < length (fst (ChunkByLines (flags ''lines'' 3 1) (\<lambda>n. False)
       (Some ([''a'', ''b'', ''c'', ''d'', ''e'', ''f'', ''g'', ''h''], None)))) \<and>
   drop (length (lines (fst (ChunkByLines (flags ''lines'' 3 1) (\<lambda>n. False)
       (Some ([''a'', ''b'', ''c'', ''d'', ''e'', ''f'', ''g'', ''h''], None))) ! 1)) - nat (overlapSize (flags ''lines'' 3 1)))
     (lines (fst (ChunkByLines (flags ''lines'' 3 1) (\<lambda>n. False)
       (Some ([''a'', ''b'', ''c'', ''d'', ''e'', ''f'', ''g'', ''h''], None))) ! 1)) =
   take (nat (overlapSize (flags ''lines'' 3 1))) (lines (fst (ChunkByLines (flags ''lines'' 3 1) (\<lambda>n. False)
       (Some ([''a'', ''b'', ''c'', ''d'', ''e'', ''f'', ''g'', ''h''], None))) ! Suc 1))"
proof -
  have a: "0 < overlapSize (flags ''lines'' 3 1)"
    and b: "overlapSize (flags ''lines'' 3 1) < chunkSize (flags ''lines'' 3 1)"
    by (simp_all add: flags_def overlapSize_def chunkSize_def)
  have c: "Suc 1 < length (fst (ChunkByLines (flags ''lines'' 3 1) (\<lambda>n. False)
       (Some ([''a'', ''b'', ''c'', ''d'', ''e'', ''f'', ''g'', ''h''], None))))"
    by (simp add: ChunkByLines_def lines_finish_def writeChunk_def seed_def carry_def
        flags_def overlapSize_def chunkSize_def)
  from lines_overlap [OF a b c] a b c show ?thesis by blast
qed

lemma lines_concat:
  assumes "overlapSize cfg \<le> 0" and "\<forall>n. \<not> fails n"
  shows "concat (map lines (fst (lines_finish fails err (lines_loop cfg fails ls cur [] n ln)))) = cur @ ls
    \<and> snd (lines_finish fails err (lines_loop cfg fails ls cur [] n ln)) = Return err"
proof (induction ls arbitrary: cur n ln)
  case Nil
  then show ?case using assms(2) by (simp add: lines_finish_Nil)
next
  case (Cons line rest)
  have sd: "seed cur [] = cur" by (simp add: seed_def)
  show ?case
  proof (cases "chunkSize cfg \<le> int (length (seed cur [] @ [line]))")
    case True
    have nf: "\<not> fails n" using assms(2) by simp
    show ?thesis
      unfolding lines_loop_Cons_flush [where fails = fails and n = n, OF True nf]
        lines_finish_emit carry_none [OF assms(1)]
      using Cons.IH [of "[]" "n + 1" "ln + 1"] by (simp add: sd)
  next
    case False
    then have keep: "int (length (seed cur [] @ [line])) < chunkSize cfg" by simp
    show ?thesis
      unfolding lines_loop_Cons_keep [OF keep]
      using Cons.IH [of "cur @ [line]" n "ln + 1"] by (simp add: sd)
  qed
qed

text \<open>
  Claim C6. In lines mode with overlap 0, when every chunk file can be created, the
  lines of the written chunks, concatenated in chunk order, are the lines the scanner
  yielded: each source line once, in order. The run returns what the scanner reports.
\<close>

theorem lines_reassemble:
  assumes "overlapSize cfg = 0" and "\<forall>n. \<not> fails n"
  shows "concat (map lines (fst (ChunkByLines cfg fails (Some (ls, err))))) = ls \<and>
         snd (ChunkByLines cfg fails (Some (ls, err))) = Return err"
  using lines_concat [of cfg fails err ls "[]" 1 0] assms
  by (simp add: ChunkByLines_def)

text \<open>
  Eight lines, three lines a chunk, no overlap.
\<close>

theorem lines_reassemble_witness:
  "overlapSize (flags ''lines'' 3 0) = 0 \<and> (\<forall>n. \<not> (\<lambda>n. False) n) \<and>
   concat (map lines (fst (ChunkByLines (flags ''lines'' 3 0) (\<lambda>n. False)
     (Some ([''a'', ''b'', ''c'', ''d'', ''e'', ''f'', ''g'', ''h''], None))))) =
     [''a'', ''b'', ''c'', ''d'', ''e'', ''f'', ''g'', ''h''] \<and>
   snd (ChunkByLines (flags ''lines'' 3 0) (\<lambda>n. False)
     (Some ([''a'', ''b'', ''c'', ''d'', ''e'', ''f'', ''g'', ''h''], None))) = Return None"
proof -
  have a: "overlapSize (flags ''lines'' 3 0) = 0"
    by (simp add: flags_def overlapSize_def)
  have b: "\<forall>n. \<not> (\<lambda>n::int. False) n" by simp
  from lines_reassemble [OF a b] a b show ?thesis by blast
qed


lemma lines_loop_block:
  assumes "xs \<noteq> []" and "int (length (seed cur prev)) + int (length xs) = chunkSize cfg"
    and "\<not> fails n"
  shows "lines_loop cfg fails (xs @ rest) cur prev n ln =
     emit \<lparr>chunkNumber = n, lines = seed cur prev @ xs,
            startLine = ln + int (length xs) - chunkSize cfg + 1, endLine = ln + int (length xs)\<rparr>
       (lines_loop cfg fails rest [] (carry cfg (seed cur prev @ xs)) (n + 1) (ln + int (length xs)))"
  using assms(1,2)
proof (induction xs arbitrary: cur ln)
  case Nil
  then show ?case by simp
next
  case (Cons x xs)
  show ?case
  proof (cases "xs = []")
    case True
    then have full: "chunkSize cfg \<le> int (length (seed cur prev @ [x]))"
      using Cons.prems(2) by simp
    have sz: "chunkSize cfg = int (length (seed cur prev)) + 1"
      using Cons.prems(2) True by simp
    show ?thesis
      using lines_loop_Cons_flush [where fails = fails and n = n, OF full assms(3), of rest ln] True
      by (simp del: lines_loop.simps add: sz)
  next
    case False
    then have keep: "int (length (seed cur prev @ [x])) < chunkSize cfg"
      using Cons.prems(2) by (cases xs) auto
    have sd: "seed (seed cur prev @ [x]) prev = seed cur prev @ [x]"
      by (simp add: seed_def)
    have "int (length (seed (seed cur prev @ [x]) prev)) + int (length xs) = chunkSize cfg"
      unfolding sd using Cons.prems(2) by simp
    from Cons.IH [OF False this, of "ln + 1"] show ?thesis
      using lines_loop_Cons_keep [OF keep, of fails "xs @ rest" n ln]
      by (simp del: lines_loop.simps add: sd ac_simps)
  qed
qed

lemma lines_loop_short:
  assumes "int (length (seed cur prev)) + int (length xs) < chunkSize cfg"
  shows "lines_loop cfg fails xs cur prev n ln =
     ([], Exhausted (if xs = [] then cur else seed cur prev @ xs) n (ln + int (length xs)))"
  using assms
proof (induction xs arbitrary: cur ln)
  case Nil
  then show ?case by simp
next
  case (Cons x xs)
  have keep: "int (length (seed cur prev @ [x])) < chunkSize cfg"
    using Cons.prems by simp
  have sd: "seed (seed cur prev @ [x]) prev = seed cur prev @ [x]"
    by (simp add: seed_def)
  have "int (length (seed (seed cur prev @ [x]) prev)) + int (length xs) < chunkSize cfg"
    unfolding sd using Cons.prems by simp
  from Cons.IH [OF this, of "ln + 1"] show ?case
    using lines_loop_Cons_keep [OF keep, of fails xs n ln]
    by (simp del: lines_loop.simps add: sd ac_simps)
qed

lemma drop_take_append:
  "a \<le> b \<Longrightarrow> b \<le> length ls \<Longrightarrow> drop a (take b ls) @ take c (drop b ls) = drop a (take (b + c) ls)"
  by (simp add: take_add)

text \<open>
  The run on 2500 lines, 1000 lines a chunk, 50 lines of overlap.
\<close>

lemma lines_2500:
  assumes len: "length ls = 2500" and size: "chunkSize cfg = 1000" and ov: "overlapSize cfg = 50"
    and nf: "\<forall>n. \<not> fails n"
  shows "ChunkByLines cfg fails (Some (ls, err)) =
    ([\<lparr>chunkNumber = 1, lines = take 1000 ls, startLine = 1, endLine = 1000\<rparr>,
      \<lparr>chunkNumber = 2, lines = drop 950 (take 1000 ls) @ take 950 (drop 1000 ls),
         startLine = 951, endLine = 1950\<rparr>,
      \<lparr>chunkNumber = 3, lines = drop 1900 (take 1950 ls) @ drop 1950 ls,
         startLine = 1901, endLine = 2500\<rparr>], Return err)"
proof -
  let ?a = "take 1000 ls" and ?b = "take 950 (drop 1000 ls)" and ?c = "drop 1950 ls"
  let ?o1 = "drop 950 ?a"
  let ?o2 = "drop 1900 (take 1950 ls)"
  have "?b @ ?c = drop 1000 ls"
    using append_take_drop_id [of 950 "drop 1000 ls"] by simp
  then have split: "ls = ?a @ (?b @ ?c)"
    by simp
  have la: "length ?a = 1000" and lb: "length ?b = 950" and lc: "length ?c = 550"
    and lo1: "length ?o1 = 50" and lo2: "length ?o2 = 50"
    using len by simp_all
  have ne: "ls \<noteq> []" using len by auto
  have nf1: "\<not> fails 1" and nf2: "\<not> fails (1 + 1)" and nf3: "\<not> fails (1 + 1 + 1)" using nf by simp_all
  have c1: "carry cfg ?a = ?o1"
    using la by (simp add: carry_def ov)
  have s2: "seed [] ?o1 = ?o1" by (simp add: seed_def)
  have c2: "carry cfg (?o1 @ ?b) = ?o2"
  proof -
    have "?o1 @ ?b = drop 950 (take 1950 ls)"
      using drop_take_append [of 950 1000 ls 950] len by simp
    then show ?thesis
      using len by (simp add: carry_def ov del: drop_append)
  qed
  have s3: "seed [] ?o2 = ?o2" by (simp add: seed_def)
  have step1: "lines_loop cfg fails (?a @ (?b @ ?c)) [] [] 1 0 =
      emit \<lparr>chunkNumber = 1, lines = ?a, startLine = 1, endLine = 1000\<rparr>
        (lines_loop cfg fails (?b @ ?c) [] ?o1 (1 + 1) 1000)"
    using lines_loop_block [where fails = fails and n = 1 and xs = ?a and cur = "[]" and prev = "[]"
        and cfg = cfg and rest = "?b @ ?c" and ln = 0, OF _ _ nf1] la len ne
    by (simp add: size seed_def c1)
  have step2: "lines_loop cfg fails (?b @ ?c) [] ?o1 (1 + 1) 1000 =
      emit \<lparr>chunkNumber = 1 + 1, lines = ?o1 @ ?b, startLine = 951, endLine = 1950\<rparr>
        (lines_loop cfg fails ?c [] ?o2 (1 + 1 + 1) 1950)"
    using lines_loop_block [where fails = fails and n = "1 + 1" and xs = ?b and cur = "[]" and prev = ?o1
        and cfg = cfg and rest = ?c and ln = 1000, OF _ _ nf2] lb lo1 len
    by (simp add: size s2 c2 del: drop_append)
  have step3: "lines_loop cfg fails ?c [] ?o2 (1 + 1 + 1) 1950 =
      ([], Exhausted (?o2 @ ?c) (1 + 1 + 1) 2500)"
    using lines_loop_short [where fails = fails and n = "1 + 1 + 1" and xs = ?c and cur = "[]" and prev = ?o2
        and cfg = cfg and ln = 1950] lc lo2 len
    by (simp add: size s3)
  have "lines_loop cfg fails ls [] [] 1 0 =
      ([\<lparr>chunkNumber = 1, lines = ?a, startLine = 1, endLine = 1000\<rparr>,
        \<lparr>chunkNumber = 2, lines = ?o1 @ ?b, startLine = 951, endLine = 1950\<rparr>],
       Exhausted (?o2 @ ?c) 3 2500)"
    using step1 step2 step3 split by simp
  then show ?thesis
    using nf lc lo2 len by (simp add: ChunkByLines_def lines_finish_def writeChunk_def)
qed


text \<open>
  Claim C3, as the code has it. An input of 2500 lines with chunk size 1000 and
  overlap 50 gives exactly three chunks. Chunk 1 holds lines 1 to 1000. Chunk 2 starts
  with lines 951 to 1000 again and goes on to line 1950: 1000 lines in all, the 50
  carried over and 950 new ones. Chunk 3 holds lines 1901 to 2500, 600 lines.
\<close>

theorem lines_scenario_2500:
  assumes "length ls = 2500" and "chunkSize cfg = 1000" and "overlapSize cfg = 50"
    and "\<forall>n. \<not> fails n"
  shows "ChunkByLines cfg fails (Some (ls, None)) =
    ([\<lparr>chunkNumber = 1, lines = take 1000 ls, startLine = 1, endLine = 1000\<rparr>,
      \<lparr>chunkNumber = 2, lines = drop 950 (take 1000 ls) @ take 950 (drop 1000 ls),
         startLine = 951, endLine = 1950\<rparr>,
      \<lparr>chunkNumber = 3, lines = drop 1900 (take 1950 ls) @ drop 1950 ls,
         startLine = 1901, endLine = 2500\<rparr>], Return None) \<and>
    map (\<lambda>c. length (lines c)) (fst (ChunkByLines cfg fails (Some (ls, None)))) = [1000, 1000, 600]"
  using assms(1) by (simp add: lines_2500 [OF assms])

text \<open>
  A file of 2500 lines.
\<close>

theorem lines_scenario_2500_witness:
  "length (replicate 2500 ''x'') = 2500 \<and> chunkSize (flags ''lines'' 1000 50) = 1000 \<and>
   overlapSize (flags ''lines'' 1000 50) = 50 \<and> (\<forall>n. \<not> (\<lambda>n. False) n) \<and>
   map (\<lambda>c. length (lines c))
     (fst (ChunkByLines (flags ''lines'' 1000 50) (\<lambda>n. False) (Some (replicate 2500 ''x'', None))))
     = [1000, 1000, 600]"
proof -
  have a: "length (replicate 2500 ''x'') = 2500" by simp
  have b: "chunkSize (flags ''lines'' 1000 50) = 1000"
    and c: "overlapSize (flags ''lines'' 1000 50) = 50"
    by (simp_all add: flags_def chunkSize_def overlapSize_def)
  have d: "\<forall>n. \<not> (\<lambda>n::int. False) n" by simp
  from lines_scenario_2500 [OF a b c d] a b c d show ?thesis by blast
qed

text \<open>
  The claim as the specification words it gives chunk 2 a total of 1050 lines, the 50
  carried over on top of 1000 new ones. On a file of 2500 lines that is not what is
  written.
\<close>

theorem lines_scenario_2500_counterexample:
  "\<not> (length (fst (ChunkByLines (flags ''lines'' 1000 50) (\<lambda>n. False)
           (Some (replicate 2500 ''x'', None)))) = 3 \<and>
       length (lines (fst (ChunkByLines (flags ''lines'' 1000 50) (\<lambda>n. False)
           (Some (replicate 2500 ''x'', None))) ! 1)) = 1050)"
proof -
  have a: "length (replicate 2500 ''x'') = 2500" by simp
  have b: "chunkSize (flags ''lines'' 1000 50) = 1000"
    and c: "overlapSize (flags ''lines'' 1000 50) = 50"
    by (simp_all add: flags_def chunkSize_def overlapSize_def)
  have d: "\<forall>n. \<not> (\<lambda>n::int. False) n" by simp
  show ?thesis
    unfolding lines_2500 [OF a b c d] by simp
qed

text \<open>
  Claim C4, as the code has it. \<^verbatim>\<open>scanner.Err()\<close> is looked at only in the last
  statement of \<^verbatim>\<open>ChunkByLines\<close>, after the remaining buffer has been written. So when
  the scanner stops with an error and the loop has written its chunks, the lines still
  in the buffer are written as one more chunk, and then the scan error is returned:
  the files are those of an input that ends where the error occurred.
\<close>

theorem scan_error_flushes_buffer:
  assumes "lines_loop cfg fails ls [] [] 1 0 = (ws, Exhausted cur n ln)" and "\<not> fails n"
  shows "ChunkByLines cfg fails (Some (ls, Some e)) =
      (if cur = [] then ws
       else ws @ [\<lparr>chunkNumber = n, lines = cur,
                    startLine = ln - int (length cur) + 1, endLine = ln\<rparr>],
       Return (Some e)) \<and>
    fst (ChunkByLines cfg fails (Some (ls, Some e))) = fst (ChunkByLines cfg fails (Some (ls, None)))"
  using assms by (simp add: ChunkByLines_def lines_finish_def writeChunk_def)

text \<open>
  One line is read, then the scanner fails; two lines a chunk.
\<close>

theorem scan_error_flushes_buffer_witness:
  "lines_loop (flags ''lines'' 2 0) (\<lambda>n. False) [''x''] [] [] 1 0 = ([], Exhausted [''x''] 1 1) \<and>
   \<not> (\<lambda>n. False) (1::int) \<and>
   ChunkByLines (flags ''lines'' 2 0) (\<lambda>n. False) (Some ([''x''], Some ScanError)) =
     ([\<lparr>chunkNumber = 1, lines = [''x''], startLine = 1, endLine = 1\<rparr>], Return (Some ScanError))"
proof -
  have a: "lines_loop (flags ''lines'' 2 0) (\<lambda>n. False) [''x''] [] [] 1 0 = ([], Exhausted [''x''] 1 1)"
    by (simp add: flags_def chunkSize_def seed_def)
  have b: "\<not> (\<lambda>n. False) (1::int)" by simp
  from scan_error_flushes_buffer [OF a b, of ScanError] a show ?thesis by simp
qed

text \<open>
  The claim as the specification words it: after a scan error nothing more is written.
  Here the loop has written nothing when the scanner fails after one line, and the run
  still writes chunk 1 before it returns the error.
\<close>

theorem scan_error_abort_counterexample:
  "fst (ChunkByLines (flags ''lines'' 2 0) (\<lambda>n. False) (Some ([''x''], Some ScanError))) \<noteq>
     fst (lines_loop (flags ''lines'' 2 0) (\<lambda>n. False) [''x''] [] [] 1 0) \<and>
   ChunkByLines (flags ''lines'' 2 0) (\<lambda>n. False) (Some ([''x''], Some ScanError)) =
     ([\<lparr>chunkNumber = 1, lines = [''x''], startLine = 1, endLine = 1\<rparr>], Return (Some ScanError))"
  by (simp add: ChunkByLines_def lines_finish_def writeChunk_def flags_def chunkSize_def seed_def)

section \<open>Character mode: where a chunk ends\<close>

declare snap.simps [simp del]

text \<open>
  The search either stops at a whitespace byte inside the window, or it leaves the end
  where it was, and then no byte of the window is whitespace. It never reads outside
  the text.
\<close>

lemma snap_cases:
  assumes "0 \<le> start" and "e < int (length text)" and "int (length text) < 2 ^ 63" and "0 \<le> e"
    and "i \<le> e" and "\<forall>j. i < j \<and> j \<le> e \<longrightarrow> \<not> is_ws (text ! nat j)"
  shows "\<exists>r. snap text start e i = Some r \<and>
           ((start < r \<and> r \<le> i \<and> is_ws (text ! nat r)) \<or>
            (r = e \<and> (\<forall>j. start < j \<and> e - 100 < j \<and> j \<le> e \<longrightarrow> \<not> is_ws (text ! nat j))))"
  using assms
proof (induction "text" start e i rule: snap.induct)
  case (1 tx start e i)
  have s: "sub64 e 100 = e - 100"
    using "1.prems"(2,3,4) by (intro sub64_plain) simp_all
  show ?case
  proof (cases "i > start \<and> i > e - 100")
    case inside: True
    then have rng: "\<not> (i < 0 \<or> int (length tx) \<le> i)"
      using "1.prems"(1,2,5) by simp
    show ?thesis
    proof (cases "is_ws (tx ! nat i)")
      case True
      then show ?thesis
        using inside rng by (subst snap.simps) (simp add: s)
    next
      case False
      have "\<forall>j. i - 1 < j \<and> j \<le> e \<longrightarrow> \<not> is_ws (tx ! nat j)"
      proof (intro allI impI)
        fix j assume j: "i - 1 < j \<and> j \<le> e"
        show "\<not> is_ws (tx ! nat j)"
        proof (cases "j = i")
          case True
          then show ?thesis using False by simp
        next
          case False
          then show ?thesis using j "1.prems"(6) by simp
        qed
      qed
      moreover have "i - 1 \<le> e" using "1.prems"(5) by simp
      ultimately obtain r where r: "snap tx start e (i - 1) = Some r"
        "(start < r \<and> r \<le> i - 1 \<and> is_ws (tx ! nat r)) \<or>
         (r = e \<and> (\<forall>j. start < j \<and> e - 100 < j \<and> j \<le> e \<longrightarrow> \<not> is_ws (tx ! nat j)))"
        using "1.IH" [OF _ rng False "1.prems"(1,2,3,4)] inside s by auto
      have "snap tx start e i = Some r"
        using inside rng False r(1) by (subst snap.simps) (simp add: s)
      then show ?thesis using r(2) by auto
    qed
  next
    case outside: False
    then have "snap tx start e i = Some e"
      by (subst snap.simps) (auto simp: s)
    moreover have "\<forall>j. start < j \<and> e - 100 < j \<and> j \<le> e \<longrightarrow> \<not> is_ws (tx ! nat j)"
      using outside "1.prems"(6) by auto
    ultimately show ?thesis by simp
  qed
qed


lemma add64_wrapped:
  assumes "2 ^ 63 \<le> a + b" and "a + b < 2 ^ 64"
  shows "add64 a b = a + b - 2 ^ 64"
proof -
  have "(word_of_int (a + b) :: 64 word) = word_of_int (a + b - 2 ^ 64)"
    by simp
  then have "add64 a b = sint (word_of_int (a + b - 2 ^ 64) :: 64 word)"
    unfolding add64_def of_int_add [symmetric] by (rule arg_cong)
  also have "\<dots> = a + b - 2 ^ 64"
    using assms by (intro wrap_plain) simp_all
  finally show ?thesis .
qed

lemma add64_pos:
  assumes "0 \<le> a" and "a < 2 ^ 63" and "0 < b" and "b < 2 ^ 63"
  shows "add64 a b = a + b \<or> add64 a b < 0"
proof (cases "a + b < 2 ^ 63")
  case True
  then show ?thesis using assms by (simp add: add64_plain)
next
  case False
  then have "add64 a b = a + b - 2 ^ 64"
    using assms by (intro add64_wrapped) simp_all
  then show ?thesis using assms by simp
qed

lemma window_end_le: "window_end cfg len start \<le> len"
  by (simp add: window_end_def Let_def)

lemma window_end_less:
  "window_end cfg len start < len \<Longrightarrow> window_end cfg len start = add64 start (chunkSize cfg)"
  by (simp add: window_end_def Let_def split: if_splits)

text \<open>
  The end of the chunk that starts at \<open>start\<close>: the end of the text, a whitespace
  byte, or the tentative end with a window free of whitespace.
\<close>

lemma chunk_end_cases:
  assumes "0 \<le> start" and "start < int (length tx)" and "int (length tx) < 2 ^ 63"
  shows "\<exists>r. chunk_end cfg tx start = Some r \<and>
     (r = int (length tx) \<or>
      (start < r \<and> r \<le> add64 start (chunkSize cfg) \<and>
       add64 start (chunkSize cfg) < int (length tx) \<and> is_ws (tx ! nat r)) \<or>
      (r = add64 start (chunkSize cfg) \<and> r < int (length tx) \<and>
       (0 \<le> r \<longrightarrow> (\<forall>j. start < j \<and> r - 100 < j \<and> j \<le> r \<longrightarrow> \<not> is_ws (tx ! nat j)))))"
proof -
  let ?e = "window_end cfg (int (length tx)) start"
  show ?thesis
  proof (cases "?e < int (length tx)")
    case False
    then have "?e = int (length tx)" using window_end_le [of cfg "int (length tx)" start] by simp
    then show ?thesis by (simp add: chunk_end_def Let_def)
  next
    case less: True
    then have e: "?e = add64 start (chunkSize cfg)" by (rule window_end_less)
    have ce: "chunk_end cfg tx start = snap tx start ?e ?e"
      using less by (simp add: chunk_end_def Let_def)
    show ?thesis
    proof (cases "0 \<le> ?e")
      case True
      have "\<forall>j. ?e < j \<and> j \<le> ?e \<longrightarrow> \<not> is_ws (tx ! nat j)" by auto
      from snap_cases [OF assms(1) less assms(3) True order_refl this]
      obtain r where "snap tx start ?e ?e = Some r"
        "(start < r \<and> r \<le> ?e \<and> is_ws (tx ! nat r)) \<or>
         (r = ?e \<and> (\<forall>j. start < j \<and> ?e - 100 < j \<and> j \<le> ?e \<longrightarrow> \<not> is_ws (tx ! nat j)))"
        by blast
      then show ?thesis unfolding ce using less e by auto
    next
      case False
      then have "snap tx start ?e ?e = Some ?e"
        using assms(1) by (subst snap.simps) simp
      then show ?thesis unfolding ce using less e False by simp
    qed
  qed
qed

lemma takeWhile_long:
  "n \<le> length xs \<Longrightarrow> \<forall>j<n. P (xs ! j) \<Longrightarrow> n \<le> length (takeWhile P xs)"
proof (induction xs arbitrary: n)
  case Nil
  then show ?case by simp
next
  case (Cons x xs)
  show ?case
  proof (cases n)
    case 0
    then show ?thesis by simp
  next
    case (Suc k)
    have "P x" using Cons.prems(2) Suc by auto
    moreover have "\<forall>j<k. P (xs ! j)" using Cons.prems(2) Suc by auto
    moreover have "k \<le> length xs" using Cons.prems(1) Suc by simp
    ultimately show ?thesis using Cons.IH [of k] Suc by simp
  qed
qed

lemma run_length_ge:
  assumes "R < length tx" and "M \<le> R + 1"
    and "\<forall>j. R + 1 - M \<le> j \<and> j \<le> R \<longrightarrow> \<not> is_ws (tx ! j)"
  shows "M \<le> run_length tx (int R)"
proof (cases M)
  case 0
  then show ?thesis by simp
next
  case (Suc K)
  have fwd: "1 \<le> length (takeWhile (\<lambda>c. \<not> is_ws c) (drop R tx))"
  proof (rule takeWhile_long)
    show "1 \<le> length (drop R tx)" using assms(1) by simp
    have "\<not> is_ws (tx ! R)" using assms(3) Suc by auto
    then show "\<forall>j<1. \<not> is_ws (drop R tx ! j)" using assms(1) by simp
  qed
  have bwd: "K \<le> length (takeWhile (\<lambda>c. \<not> is_ws c) (rev (take R tx)))"
  proof (rule takeWhile_long)
    show "K \<le> length (rev (take R tx))" using assms(1,2) Suc by simp
    show "\<forall>j<K. \<not> is_ws (rev (take R tx) ! j)"
    proof (intro allI impI)
      fix j assume j: "j < K"
      then have "j < length (take R tx)" using assms(1,2) Suc by simp
      then have "rev (take R tx) ! j = take R tx ! (length (take R tx) - Suc j)"
        by (rule rev_nth)
      also have "\<dots> = tx ! (R - Suc j)" using assms(1,2) Suc j by simp
      finally show "\<not> is_ws (rev (take R tx) ! j)"
        using assms(2,3) Suc j by simp
    qed
  qed
  show ?thesis unfolding run_length_def using fwd bwd Suc by simp
qed

lemma chunk_end_split:
  assumes "0 \<le> start" and "start < int (length tx)" and "int (length tx) < 2 ^ 63"
    and "chunk_end cfg tx start = Some r" and "start \<le> r" and "splits_run tx r"
  shows "min (chunkSize cfg) 100 \<le> int (run_length tx r) \<and> r = start + chunkSize cfg \<and>
         (\<forall>j. r - min (chunkSize cfg) 100 < j \<and> j \<le> r \<longrightarrow> \<not> is_ws (tx ! nat j))"
proof -
  from chunk_end_cases [OF assms(1,2,3), of cfg] assms(4,6)
  have r: "r = add64 start (chunkSize cfg)" "r < int (length tx)"
      and scan: "\<forall>j. start < j \<and> r - 100 < j \<and> j \<le> r \<longrightarrow> \<not> is_ws (tx ! nat j)"
    using assms(1,5) by (auto simp: splits_run_def)
  have r0: "0 < r" using assms(6) by (simp add: splits_run_def)
  have nw: "\<not> is_ws (tx ! nat (r - 1))" using assms(6) by (simp add: splits_run_def)
  show ?thesis
  proof (cases "0 < chunkSize cfg")
    case False
    have "add64 start (chunkSize cfg) = start + chunkSize cfg"
      using assms(1,2,3) False chunkSize_range [of cfg] by (intro add64_plain) simp_all
    then have "r = start + chunkSize cfg" using r(1) by simp
    moreover from this have "chunkSize cfg = 0" using False assms(5) by simp
    ultimately show ?thesis by auto
  next
    case True
    from add64_pos [OF assms(1) _ True, of ] assms(2,3) chunkSize_range [of cfg] r(1) r0
    have plain: "r = start + chunkSize cfg" by auto
    define M where "M = nat (min (chunkSize cfg) 100)"
    have M: "int M = min (chunkSize cfg) 100" using True by (simp add: M_def)
    have "M \<le> run_length tx (int (nat r))"
    proof (rule run_length_ge)
      show "nat r < length tx" using r(2) r0 by simp
      show "M \<le> nat r + 1" using plain assms(1) M by linarith
      show "\<forall>j. nat r + 1 - M \<le> j \<and> j \<le> nat r \<longrightarrow> \<not> is_ws (tx ! j)"
      proof (intro allI impI)
        fix j assume j: "nat r + 1 - M \<le> j \<and> j \<le> nat r"
        show "\<not> is_ws (tx ! j)"
        proof (cases "start < int j")
          case True
          moreover have "r - 100 < int j" using j M r0 by linarith
          moreover have "int j \<le> r" using j r0 by linarith
          ultimately show ?thesis using scan [rule_format, of "int j"] by simp
        next
          case False
          then have "int j = r - 1" using j M plain assms(1) True by linarith
          then have "j = nat (r - 1)" by simp
          then show ?thesis using nw by simp
        qed
      qed
    qed
    then have "min (chunkSize cfg) 100 \<le> int (run_length tx r)" using M r0 by simp
    moreover have "\<forall>j. r - min (chunkSize cfg) 100 < j \<and> j \<le> r \<longrightarrow> \<not> is_ws (tx ! nat j)"
    proof (intro allI impI)
      fix j assume j: "r - min (chunkSize cfg) 100 < j \<and> j \<le> r"
      then have "start < j \<and> r - 100 < j \<and> j \<le> r" using plain by auto
      then show "\<not> is_ws (tx ! nat j)" using scan by blast
    qed
    ultimately show ?thesis using plain by blast
  qed
qed


lemma advance_nonneg: "0 \<le> e \<Longrightarrow> 0 \<le> advance cfg e"
  by (simp add: advance_def Let_def)

lemma advance_no_overlap: "overlapSize cfg \<le> 0 \<Longrightarrow> advance cfg e = e"
  by (simp add: advance_def)

lemma slice_Some: "slice xs s e = Some ys \<Longrightarrow> 0 \<le> s \<and> s \<le> e \<and> e \<le> int (length xs)"
  by (simp add: slice_def split: if_splits)

lemma chars_loop_step:
  assumes "start < int (length tx)" and "chunk_end cfg tx start = Some r"
    and "0 \<le> start" and "start \<le> r" and "r \<le> int (length tx)" and "\<not> fails n"
  shows "chars_loop (Suc fuel) cfg fails tx start n =
     emit \<lparr>chunkNo = n, content = take (nat (r - start)) (drop (nat start) tx),
            startPos = start, endPos = r\<rparr>
       (chars_loop fuel cfg fails tx (advance cfg r) (n + 1))"
  using assms by (simp add: slice_def writeTextChunk_def)

lemma chars_loop_member:
  assumes "c \<in> set (fst (chars_loop (Suc fuel) cfg fails tx start n))"
  shows "start < int (length tx) \<and>
     (\<exists>r. chunk_end cfg tx start = Some r \<and> 0 \<le> start \<and> start \<le> r \<and> r \<le> int (length tx) \<and>
        (c = \<lparr>chunkNo = n, content = take (nat (r - start)) (drop (nat start) tx),
              startPos = start, endPos = r\<rparr> \<or>
         c \<in> set (fst (chars_loop fuel cfg fails tx (advance cfg r) (n + 1)))))"
  using assms
  by (auto simp: slice_def writeTextChunk_def split: if_splits option.splits sum.splits)

lemma chars_loop_boundaries:
  assumes "int (length tx) < 2 ^ 63"
  shows "0 \<le> start \<Longrightarrow> c \<in> set (fst (chars_loop fuel cfg fails tx start n)) \<Longrightarrow>
     splits_run tx (endPos c) \<Longrightarrow>
     min (chunkSize cfg) 100 \<le> int (run_length tx (endPos c)) \<and>
     endPos c = startPos c + chunkSize cfg \<and>
     (\<forall>j. endPos c - min (chunkSize cfg) 100 < j \<and> j \<le> endPos c \<longrightarrow> \<not> is_ws (tx ! nat j))"
proof (induction fuel arbitrary: start n)
  case 0
  then show ?case by (simp split: if_splits)
next
  case (Suc fuel)
  from chars_loop_member [OF Suc.prems(2)] obtain r where
    lt: "start < int (length tx)" and r: "chunk_end cfg tx start = Some r"
      "start \<le> r" "r \<le> int (length tx)"
    and c: "c = \<lparr>chunkNo = n, content = take (nat (r - start)) (drop (nat start) tx),
                  startPos = start, endPos = r\<rparr> \<or>
            c \<in> set (fst (chars_loop fuel cfg fails tx (advance cfg r) (n + 1)))"
    by blast
  from c show ?case
  proof
    assume here: "c = \<lparr>chunkNo = n, content = take (nat (r - start)) (drop (nat start) tx),
                  startPos = start, endPos = r\<rparr>"
    then have "splits_run tx r" using Suc.prems(3) by simp
    from chunk_end_split [OF Suc.prems(1) lt assms r(1,2) this]
    have "min (chunkSize cfg) 100 \<le> int (run_length tx r)" and "r = start + chunkSize cfg"
      and "\<forall>j. r - min (chunkSize cfg) 100 < j \<and> j \<le> r \<longrightarrow> \<not> is_ws (tx ! nat j)"
      by blast+
    moreover have "endPos c = r" and "startPos c = start" using here by simp_all
    ultimately show ?thesis by metis
  next
    assume "c \<in> set (fst (chars_loop fuel cfg fails tx (advance cfg r) (n + 1)))"
    moreover have "0 \<le> advance cfg r" using Suc.prems(1) r(2) by (intro advance_nonneg) simp
    ultimately show ?thesis using Suc.IH Suc.prems(3) by blast
  qed
qed

text \<open>
  Claim C8, as the code has it. The search for a word boundary looks at the byte at
  the tentative end \<open>start + ChunkSize\<close> and at the bytes before it, but never at
  more than 100 bytes and never at the first byte of the chunk. So where the end of a
  written chunk falls between two non-whitespace bytes, it is the tentative end, the
  window, that is the \<open>min ChunkSize 100\<close> bytes up to and including the byte at that
  end, holds no whitespace, and the run that is split has at least
  \<open>min ChunkSize 100\<close> bytes: a run is split as soon as it fills the window, and
  with a chunk size below 100 that window is the chunk. This
  holds for every configuration and every text (shorter than \<open>2^63\<close> bytes, as every
  Go string is), and for the chunks of a run that never ends as well.
\<close>

theorem chars_boundary_splits:
  assumes "int (length tx) < 2 ^ 63"
    and "c \<in> set (fst (ChunkByCharacters fuel cfg fails (Some tx)))"
    and "splits_run tx (endPos c)"
  shows "min (chunkSize cfg) 100 \<le> int (run_length tx (endPos c)) \<and>
         endPos c = startPos c + chunkSize cfg \<and>
         (\<forall>j. endPos c - min (chunkSize cfg) 100 < j \<and> j \<le> endPos c
            \<longrightarrow> \<not> is_ws (tx ! nat j))"
proof -
  have "c \<in> set (fst (chars_loop fuel cfg fails tx 0 1))"
    using assms(2) by (simp add: ChunkByCharacters_def)
  with assms(1) order_refl show ?thesis
    using assms(3) by (rule chars_loop_boundaries)
qed

lemmas cfg_simps = flags_def chunkSize_def overlapSize_def
lemmas chars_eval = ChunkByCharacters_def chunk_end_def window_end_def add64_def sub64_def
  slice_def writeTextChunk_def advance_def is_ws_def snap.simps

lemma chars_abcdef:
  "ChunkByCharacters (Suc (Suc k)) (flags ''chars'' 3 0) (\<lambda>n. False) (Some ''abcdef'') =
   ([\<lparr>chunkNo = 1, content = ''abc'', startPos = 0, endPos = 3\<rparr>,
     \<lparr>chunkNo = 2, content = ''def'', startPos = 3, endPos = 6\<rparr>], Return None)"
  by (cases k) (simp_all add: chars_eval cfg_simps)

lemma run_abcdef: "splits_run ''abcdef'' 3 \<and> run_length ''abcdef'' 3 = 6"
  by (simp add: splits_run_def run_length_def is_ws_def)

text \<open>
  The text \<^verbatim>\<open>abcdef\<close> with chunk size 3: the first chunk ends inside the word.
\<close>

theorem chars_boundary_splits_witness:
  "int (length ''abcdef'') < 2 ^ 63 \<and>
   \<lparr>chunkNo = 1, content = ''abc'', startPos = 0, endPos = 3\<rparr>
     \<in> set (fst (ChunkByCharacters 2 (flags ''chars'' 3 0) (\<lambda>n. False) (Some ''abcdef''))) \<and>
   splits_run ''abcdef'' 3 \<and>
   min (chunkSize (flags ''chars'' 3 0)) 100 \<le> int (run_length ''abcdef'' 3) \<and>
   (3::int) = 0 + chunkSize (flags ''chars'' 3 0) \<and>
   \<not> is_ws (''abcdef'' ! nat 1) \<and> \<not> is_ws (''abcdef'' ! nat 2) \<and> \<not> is_ws (''abcdef'' ! nat 3)"
proof -
  let ?c = "\<lparr>chunkNo = 1, content = ''abc'', startPos = 0, endPos = 3\<rparr>"
  have a: "int (length ''abcdef'') < 2 ^ 63" by simp
  have b: "?c \<in> set (fst (ChunkByCharacters 2 (flags ''chars'' 3 0) (\<lambda>n. False) (Some ''abcdef'')))"
    using chars_abcdef [of 0] by (simp add: numeral_2_eq_2)
  have c: "splits_run ''abcdef'' (endPos ?c)" using run_abcdef by simp
  have d: "endPos ?c = 3" and e: "startPos ?c = 0" by simp_all
  have m: "min (chunkSize (flags ''chars'' 3 0)) 100 = 3" by (simp add: cfg_simps)
  from chars_boundary_splits [OF a b c]
  have r: "min (chunkSize (flags ''chars'' 3 0)) 100 \<le> int (run_length ''abcdef'' 3)"
    and s: "(3::int) = 0 + chunkSize (flags ''chars'' 3 0)"
    and w: "\<forall>j. (3::int) - 3 < j \<and> j \<le> 3 \<longrightarrow> \<not> is_ws (''abcdef'' ! nat j)"
    unfolding d e m by blast+
  from w [rule_format, of 1] w [rule_format, of 2] w [rule_format, of 3]
  have "\<not> is_ws (''abcdef'' ! nat 1)" and "\<not> is_ws (''abcdef'' ! nat 2)"
    and "\<not> is_ws (''abcdef'' ! nat 3)"
    by linarith+
  with a b c r s show ?thesis unfolding d by blast
qed

text \<open>
  The claim as the specification words it: a run is split only if it is longer than
  100 bytes. With chunk size 3 the six letters of \<^verbatim>\<open>abcdef\<close> are split after the
  third.
\<close>

theorem chars_boundary_counterexample:
  "\<not> (\<forall>c \<in> set (fst (ChunkByCharacters 2 (flags ''chars'' 3 0) (\<lambda>n. False) (Some ''abcdef''))).
        splits_run ''abcdef'' (endPos c) \<longrightarrow> 100 < run_length ''abcdef'' (endPos c))"
  using chars_abcdef [of 0] run_abcdef by (simp add: numeral_2_eq_2)

text \<open>
  The bound is met at the default width of the window as well. With chunk size 100 the
  first chunk of \<open>hundred\<close> ends at byte 100, inside the run of 100 letters: the
  search sees the bytes 1 to 100, all letters, and not the blank at byte 0.
\<close>

lemma hundred_nth: "0 < i \<Longrightarrow> i \<le> 100 \<Longrightarrow> hundred ! nat i = CHR ''a''"
  by (cases "nat i") (auto simp: hundred_def nth_append)

lemma hundred_end: "chunk_end (flags ''chars'' 100 0) hundred 0 = Some 100"
proof -
  have len: "int (length hundred) = 103" by (simp add: hundred_def)
  have w: "window_end (flags ''chars'' 100 0) 103 0 = 100"
    by (simp add: window_end_def add64_def cfg_simps)
  have ce: "chunk_end (flags ''chars'' 100 0) hundred 0 = snap hundred 0 100 100"
    by (simp add: chunk_end_def len w)
  have "\<forall>j. (100::int) < j \<and> j \<le> 100 \<longrightarrow> \<not> is_ws (hundred ! nat j)" by auto
  from snap_cases [of 0 100 hundred 100, OF _ _ _ _ _ this] len
  obtain r where r: "snap hundred 0 100 100 = Some r"
    "(0 < r \<and> r \<le> 100 \<and> is_ws (hundred ! nat r)) \<or> r = 100"
    by auto
  have "\<not> (0 < r \<and> r \<le> 100 \<and> is_ws (hundred ! nat r))"
    using hundred_nth [of r] by (auto simp: is_ws_def)
  then show ?thesis using r ce by auto
qed

lemma hundred_run: "splits_run hundred 100 \<and> run_length hundred 100 = 100"
proof -
  have t: "take 100 hundred = CHR '' '' # replicate 99 CHR ''a''"
    by (simp add: hundred_def)
  have d: "drop 100 hundred = ''a b''"
    by (simp add: hundred_def)
  have "takeWhile (\<lambda>c. \<not> is_ws c) (replicate 99 CHR ''a'' @ '' '') =
      replicate 99 CHR ''a'' @ takeWhile (\<lambda>c. \<not> is_ws c) '' ''"
    by (rule takeWhile_append2) (simp add: is_ws_def)
  then have "takeWhile (\<lambda>c. \<not> is_ws c) (rev (take 100 hundred)) = replicate 99 CHR ''a''"
    unfolding t by (simp add: is_ws_def)
  moreover have "takeWhile (\<lambda>c. \<not> is_ws c) (drop 100 hundred) = ''a''"
    unfolding d by (simp add: is_ws_def)
  moreover have "splits_run hundred 100"
    using hundred_nth [of 99] hundred_nth [of 100]
    by (simp add: splits_run_def is_ws_def hundred_def)
  ultimately show ?thesis by (simp add: run_length_def)
qed

lemma hundred_first_chunk:
  "hd (fst (ChunkByCharacters (Suc k) (flags ''chars'' 100 0) (\<lambda>n. False) (Some hundred))) =
     \<lparr>chunkNo = 1, content = CHR '' '' # replicate 99 CHR ''a'', startPos = 0, endPos = 100\<rparr>"
proof -
  have len: "int (length hundred) = 103" by (simp add: hundred_def)
  have t: "take 100 hundred = CHR '' '' # replicate 99 CHR ''a''"
    by (simp add: hundred_def)
  show ?thesis
    using chars_loop_step [where fails = "\<lambda>n. False" and n = 1 and fuel = k, OF _ hundred_end] len t
    by (simp add: ChunkByCharacters_def del: chars_loop.simps)
qed

section \<open>Character mode without overlap\<close>

lemma take_drop_glue:
  "s \<le> r \<Longrightarrow> take (r - s) (drop s xs) @ drop r xs = drop s xs"
  using append_take_drop_id [of "r - s" "drop s xs"] by simp

lemma chunk_end_progress:
  assumes "0 \<le> start" and "start < int (length tx)" and "int (length tx) < 2 ^ 63"
    and "0 < chunkSize cfg" and "start + chunkSize cfg < 2 ^ 63"
  shows "\<exists>r. chunk_end cfg tx start = Some r \<and> start < r \<and> r \<le> int (length tx) \<and>
           (r = int (length tx) \<or> chunkSize cfg \<le> int (length tx))"
proof -
  have plain: "add64 start (chunkSize cfg) = start + chunkSize cfg"
    using assms(1,4,5) by (intro add64_plain) simp_all
  from chunk_end_cases [OF assms(1,2,3), of cfg] show ?thesis
    unfolding plain using assms(1,2,4) by auto
qed

text \<open>
  Without overlap the cursor moves to the end of the chunk just written, so the loop
  ends after at most one iteration per byte, and the chunks tile the rest of the
  text.
\<close>

lemma chars_loop_total:
  assumes size: "0 < chunkSize cfg" and ov: "overlapSize cfg \<le> 0" and nf: "\<forall>n. \<not> fails n"
    and len: "int (length tx) < 2 ^ 62"
  shows "0 \<le> start \<Longrightarrow> start \<le> int (length tx) \<Longrightarrow>
     start = 0 \<or> start = int (length tx) \<or> chunkSize cfg \<le> int (length tx) \<Longrightarrow>
     nat (int (length tx) - start) \<le> fuel \<Longrightarrow>
     snd (chars_loop fuel cfg fails tx start n) = Return None \<and>
     concat (map content (fst (chars_loop fuel cfg fails tx start n))) = drop (nat start) tx"
proof (induction fuel arbitrary: start n)
  case 0
  then show ?case by simp
next
  case (Suc fuel)
  show ?case
  proof (cases "start < int (length tx)")
    case False
    then show ?thesis using Suc.prems(2) by simp
  next
    case True
    have len63: "int (length tx) < 2 ^ 63" using len by simp
    have "start + chunkSize cfg < 2 ^ 63"
      using Suc.prems(3) True len chunkSize_range [of cfg] by auto
    from chunk_end_progress [OF Suc.prems(1) True len63 size this]
    obtain r where r: "chunk_end cfg tx start = Some r" "start < r" "r \<le> int (length tx)"
        "r = int (length tx) \<or> chunkSize cfg \<le> int (length tx)"
      by blast
    have nfn: "\<not> fails n" using nf by simp
    have step: "chars_loop (Suc fuel) cfg fails tx start n =
        emit \<lparr>chunkNo = n, content = take (nat (r - start)) (drop (nat start) tx),
               startPos = start, endPos = r\<rparr>
          (chars_loop fuel cfg fails tx r (n + 1))"
      using chars_loop_step [where fails = fails and n = n and fuel = fuel,
          OF True r(1) Suc.prems(1) _ r(3) nfn] r(2)
      by (simp add: advance_no_overlap [OF ov] del: chars_loop.simps)
    have "nat (int (length tx) - r) \<le> fuel" using Suc.prems(4) r(2) by linarith
    moreover have "0 \<le> r" using Suc.prems(1) r(2) by simp
    moreover have "r = 0 \<or> r = int (length tx) \<or> chunkSize cfg \<le> int (length tx)"
      using r(4) by blast
    ultimately have ih: "snd (chars_loop fuel cfg fails tx r (n + 1)) = Return None"
        "concat (map content (fst (chars_loop fuel cfg fails tx r (n + 1)))) = drop (nat r) tx"
      using Suc.IH [of r "n + 1"] r(3) by simp_all
    have "nat (r - start) = nat r - nat start" using Suc.prems(1) r(2) by linarith
    moreover have "nat start \<le> nat r" using r(2) by simp
    ultimately have "take (nat (r - start)) (drop (nat start) tx) @ drop (nat r) tx = drop (nat start) tx"
      using take_drop_glue [of "nat start" "nat r" tx] by simp
    then show ?thesis unfolding step using ih by simp
  qed
qed

text \<open>
  Claim C9. In character mode with overlap 0 and a positive chunk size, when every
  chunk file can be created, the run ends (given one iteration per byte it returns
  nil) and the contents of the written chunks, concatenated in chunk order, are the
  text byte for byte. A whitespace byte at which a chunk was cut short is not dropped:
  it is the first byte of the next chunk. The text is shorter than \<open>2^62\<close> bytes, as
  every Go string is, so that \<open>start + ChunkSize\<close> cannot overflow.
\<close>

theorem chars_reassemble:
  assumes "0 < chunkSize cfg" and "overlapSize cfg = 0" and "\<forall>n. \<not> fails n"
    and "int (length tx) < 2 ^ 62" and "length tx \<le> fuel"
  shows "snd (ChunkByCharacters fuel cfg fails (Some tx)) = Return None \<and>
         concat (map content (fst (ChunkByCharacters fuel cfg fails (Some tx)))) = tx"
proof -
  have "overlapSize cfg \<le> 0" using assms(2) by simp
  from chars_loop_total [OF assms(1) this assms(3,4), of 0 fuel 1] assms(5)
  show ?thesis by (simp add: ChunkByCharacters_def)
qed

text \<open>
  The text \<^verbatim>\<open>a b c d e\<close>, five bytes a chunk.
\<close>

theorem chars_reassemble_witness:
  "0 < chunkSize (flags ''chars'' 5 0) \<and> overlapSize (flags ''chars'' 5 0) = 0 \<and>
   (\<forall>n. \<not> (\<lambda>n. False) n) \<and> int (length ''a b c d e'') < 2 ^ 62 \<and> length ''a b c d e'' \<le> 9 \<and>
   snd (ChunkByCharacters 9 (flags ''chars'' 5 0) (\<lambda>n. False) (Some ''a b c d e'')) = Return None \<and>
   concat (map content (fst (ChunkByCharacters 9 (flags ''chars'' 5 0) (\<lambda>n. False)
     (Some ''a b c d e'')))) = ''a b c d e''"
proof -
  have a: "0 < chunkSize (flags ''chars'' 5 0)" and b: "overlapSize (flags ''chars'' 5 0) = 0"
    by (simp_all add: cfg_simps)
  have c: "\<forall>n. \<not> (\<lambda>n::int. False) n" by simp
  have d: "int (length ''a b c d e'') < 2 ^ 62" and e: "length ''a b c d e'' \<le> 9" by simp_all
  from chars_reassemble [OF a b c d e] a b c d e show ?thesis by blast
qed

text \<open>
  Claim C2, as the code has it. On \<^verbatim>\<open>a b c d e\<close> with chunk size 5 and overlap 0 the
  boundary search finds the blank at index 5 at once, the first chunk is \<^verbatim>\<open>a b c\<close>,
  and the second chunk starts with that blank: exactly two chunks are written, and the
  second holds four bytes, a blank and \<^verbatim>\<open>d e\<close>. Two iterations are enough, and more
  fuel changes nothing.
\<close>

theorem chars_scenario:
  "ChunkByCharacters (Suc (Suc k)) (flags ''chars'' 5 0) (\<lambda>n. False) (Some ''a b c d e'') =
   ([\<lparr>chunkNo = 1, content = ''a b c'', startPos = 0, endPos = 5\<rparr>,
     \<lparr>chunkNo = 2, content = '' d e'', startPos = 5, endPos = 9\<rparr>], Return None)"
  by (cases k) (simp_all add: chars_eval cfg_simps)

text \<open>
  The claim as the specification words it has \<^verbatim>\<open>d e\<close>, without the blank, as the
  second chunk.
\<close>

theorem chars_scenario_counterexample:
  "map content (fst (ChunkByCharacters 2 (flags ''chars'' 5 0) (\<lambda>n. False) (Some ''a b c d e'')))
     \<noteq> [''a b c'', ''d e'']"
  by (simp add: chars_eval cfg_simps numeral_2_eq_2)

section \<open>Token mode without overlap\<close>

lemma punct_not_space: "is_punct r \<Longrightarrow> \<not> is_space r"
  by (auto simp: is_punct_def is_space_def)

lemma tokenize_loop_tokens:
  "tokenize_loop rs (ts @ tokens) cur = ts @ tokenize_loop rs tokens cur"
  by (induction rs arbitrary: tokens cur) simp_all

lemma tokenize_loop_Nil_tokens: "tokenize_loop rs tokens cur = tokens @ tokenize_loop rs [] cur"
  using tokenize_loop_tokens [of rs tokens "[]" cur] by simp

lemma tokenize_loop_word:
  "list_all is_word_rune w \<Longrightarrow> tokenize_loop (w @ rs) tokens cur = tokenize_loop rs tokens (cur @ w)"
  by (induction w arbitrary: cur) (simp_all add: is_word_rune_def)

text \<open>
  Every token is a run of word runes or a single punctuation rune.
\<close>

lemma tokenize_loop_wf:
  "list_all wf_token tokens \<Longrightarrow> list_all is_word_rune cur \<Longrightarrow>
   list_all wf_token (tokenize_loop rs tokens cur)"
proof (induction rs arbitrary: tokens cur)
  case Nil
  then show ?case by (simp add: wf_token_def)
next
  case (Cons r rs)
  show ?case
  proof (cases "is_space r")
    case True
    then show ?thesis using Cons by (simp add: wf_token_def)
  next
    case notspace: False
    show ?thesis
    proof (cases "is_punct r")
      case True
      then show ?thesis using Cons notspace by (simp add: wf_token_def)
    next
      case False
      then show ?thesis using Cons notspace by (simp add: is_word_rune_def)
    qed
  qed
qed

lemma tokenize_wf: "list_all wf_token (tokenize tx)"
  unfolding tokenize_def by (rule tokenize_loop_wf) simp_all

lemma tokenize_loop_token:
  assumes "wf_token t"
  shows "tokenize_loop (t @ 32 # rs) tokens [] = tokenize_loop rs (tokens @ [t]) []"
    and "tokenize_loop t tokens [] = tokens @ [t]"
proof -
  have sp: "is_space 32" by (simp add: is_space_def)
  from assms consider (word) "t \<noteq> []" "list_all is_word_rune t"
    | (punct) r where "t = [r]" "is_punct r"
    by (cases t) (auto simp: wf_token_def)
  then have "tokenize_loop (t @ 32 # rs) tokens [] = tokenize_loop rs (tokens @ [t]) [] \<and>
     tokenize_loop t tokens [] = tokens @ [t]"
  proof cases
    case word
    then show ?thesis
      using tokenize_loop_word [of t "32 # rs" tokens "[]"] tokenize_loop_word [of t "[]" tokens "[]"] sp
      by simp
  next
    case punct
    then show ?thesis using sp punct_not_space [of r] by simp
  qed
  then show "tokenize_loop (t @ 32 # rs) tokens [] = tokenize_loop rs (tokens @ [t]) []"
    and "tokenize_loop t tokens [] = tokens @ [t]" by simp_all
qed

text \<open>
  Tokenizing such tokens joined by blanks gives the tokens back.
\<close>

lemma tokenize_loop_join:
  "list_all wf_token ts \<Longrightarrow> tokenize_loop (join ts [32]) tokens [] = tokens @ ts"
proof (induction ts "[32::rune]" arbitrary: tokens rule: join.induct)
  case 1
  then show ?case by simp
next
  case (2 t)
  then show ?case by (simp add: tokenize_loop_token)
next
  case (3 t u us)
  then show ?case by (simp add: tokenize_loop_token del: tokenize_loop.simps)
qed

lemma tokenize_join: "list_all wf_token ts \<Longrightarrow> tokenize (join ts [32]) = ts"
  by (simp add: tokenize_def tokenize_loop_join)

lemma join_append:
  "xs \<noteq> [] \<Longrightarrow> ys \<noteq> [] \<Longrightarrow> join (xs @ ys) sep = join xs sep @ sep @ join ys sep"
proof (induction xs sep rule: join.induct)
  case (2 x sep)
  then show ?case by (cases ys) simp_all
qed simp_all

lemma join_Cons: "ys \<noteq> [] \<Longrightarrow> join (x # ys) sep = x @ sep @ join ys sep"
  by (cases ys) simp_all

lemma length_tokenize_loop:
  "length (tokenize_loop rs tokens cur) \<le> length tokens + length rs + (if cur = [] then 0 else 1)"
proof (induction rs arbitrary: tokens cur)
  case Nil
  then show ?case by simp
next
  case (Cons r rs)
  show ?case
    using Cons [of "tokens @ [cur]" "[]"] Cons [of tokens cur] Cons [of "(tokens @ [cur]) @ [[r]]" "[]"]
      Cons [of "tokens @ [[r]]" cur] Cons [of tokens "cur @ [r]"]
    by (simp split: if_splits)
qed

lemma length_tokenize: "length (tokenize tx) \<le> length tx"
  using length_tokenize_loop [of tx "[]" "[]"] by (simp add: tokenize_def)


lemma window_end_plain:
  assumes "0 \<le> start" and "0 < chunkSize cfg" and "start + chunkSize cfg < 2 ^ 63"
  shows "window_end cfg len start = min (start + chunkSize cfg) len"
proof -
  have "add64 start (chunkSize cfg) = start + chunkSize cfg"
    using assms by (intro add64_plain) simp_all
  then show ?thesis by (simp add: window_end_def min_def)
qed

lemma tokens_loop_step:
  assumes "start < int (length ts)" and "window_end cfg (int (length ts)) start = r"
    and "0 \<le> start" and "start \<le> r" and "r \<le> int (length ts)" and "\<not> fails n"
  shows "tokens_loop (Suc fuel) cfg fails ts start n =
     emit \<lparr>chunkNo = n, content = join (take (nat (r - start)) (drop (nat start) ts)) [32],
            startPos = start, endPos = r\<rparr>
       (tokens_loop fuel cfg fails ts (advance cfg r) (n + 1))"
  using assms by (simp add: slice_def writeTextChunk_def Let_def)

text \<open>
  Without overlap the token loop ends after at most one iteration per token, and
  joining the chunks by blanks is joining the tokens by blanks.
\<close>

lemma tokens_loop_total:
  assumes size: "0 < chunkSize cfg" and ov: "overlapSize cfg \<le> 0" and nf: "\<forall>n. \<not> fails n"
    and len: "int (length ts) < 2 ^ 62"
  shows "0 \<le> start \<Longrightarrow> start \<le> int (length ts) \<Longrightarrow>
     start = 0 \<or> start = int (length ts) \<or> chunkSize cfg \<le> int (length ts) \<Longrightarrow>
     nat (int (length ts) - start) \<le> fuel \<Longrightarrow>
     snd (tokens_loop fuel cfg fails ts start n) = Return None \<and>
     (fst (tokens_loop fuel cfg fails ts start n) = [] \<longleftrightarrow> start = int (length ts)) \<and>
     join (map content (fst (tokens_loop fuel cfg fails ts start n))) [32] =
       join (drop (nat start) ts) [32]"
proof (induction fuel arbitrary: start n)
  case 0
  then show ?case by simp
next
  case (Suc fuel)
  show ?case
  proof (cases "start < int (length ts)")
    case False
    then show ?thesis using Suc.prems(2) by simp
  next
    case True
    let ?len = "int (length ts)"
    have bound: "start + chunkSize cfg < 2 ^ 63"
      using Suc.prems(3) True len chunkSize_range [of cfg] by auto
    define r where "r = window_end cfg ?len start"
    have r: "r = min (start + chunkSize cfg) ?len"
      unfolding r_def by (rule window_end_plain [OF Suc.prems(1) size bound])
    have r1: "start < r" and r2: "r \<le> ?len" using r size True by simp_all
    have r3: "r = 0 \<or> r = ?len \<or> chunkSize cfg \<le> ?len"
      using r Suc.prems(1) by (auto simp: min_def)
    have nfn: "\<not> fails n" using nf by simp
    let ?c = "\<lparr>chunkNo = n, content = join (take (nat (r - start)) (drop (nat start) ts)) [32],
               startPos = start, endPos = r\<rparr>"
    let ?rest = "tokens_loop fuel cfg fails ts r (n + 1)"
    have step: "tokens_loop (Suc fuel) cfg fails ts start n = emit ?c ?rest"
      using tokens_loop_step [where fails = fails and n = n and fuel = fuel,
          OF True r_def [symmetric] Suc.prems(1) _ r2 nfn] r1
      by (simp add: advance_no_overlap [OF ov] del: tokens_loop.simps)
    have r0: "0 \<le> r" using Suc.prems(1) r1 by simp
    have "nat (?len - r) \<le> fuel" using Suc.prems(4) r1 by linarith
    with r0 have ih: "snd ?rest = Return None" "fst ?rest = [] \<longleftrightarrow> r = ?len"
        "join (map content (fst ?rest)) [32] = join (drop (nat r) ts) [32]"
      using Suc.IH [of r "n + 1"] r2 r3 by simp_all
    let ?d = "drop (nat start) ts"
    let ?m = "nat (r - start)"
    have m: "?m = nat r - nat start" using Suc.prems(1) r1 by linarith
    have dd: "drop ?m ?d = drop (nat r) ts" using m r1 by simp
    have glue: "take ?m ?d @ drop (nat r) ts = ?d"
      using append_take_drop_id [of ?m ?d] unfolding dd .
    have tk: "take ?m ?d \<noteq> []" using r1 True Suc.prems(1) by simp
    have "join (content ?c # map content (fst ?rest)) [32] = join ?d [32]"
    proof (cases "r = ?len")
      case True
      then have "fst ?rest = []" using ih(2) by simp
      moreover have "take ?m ?d = ?d" using True m by simp
      ultimately show ?thesis by simp
    next
      case False
      then have ne: "map content (fst ?rest) \<noteq> []" using ih(2) by simp
      have "drop ?m ?d \<noteq> []" unfolding dd using False r2 r0 by simp
      from join_append [OF tk this, of "[32]"]
      have "join (take ?m ?d @ drop ?m ?d) [32] =
          join (take ?m ?d) [32] @ [32] @ join (drop ?m ?d) [32]" .
      then have "join ?d [32] = join (take ?m ?d) [32] @ [32] @ join (drop (nat r) ts) [32]"
        unfolding dd glue .
      then show ?thesis using join_Cons [OF ne, of "content ?c" "[32]"] ih(3) by simp
    qed
    then show ?thesis unfolding step using ih(1) True by simp
  qed
qed

text \<open>
  Claim C5. In token mode with overlap 0 and a positive chunk size, when every chunk
  file can be created, the run ends (given one iteration per rune of the text it
  returns nil), and the chunk contents, each one its tokens joined by single blanks,
  joined again by a blank, tokenize to exactly the tokens of the whole text. The text
  has fewer than \<open>2^62\<close> runes, as every Go string has.
\<close>

theorem tokens_reassemble:
  assumes "0 < chunkSize cfg" and "overlapSize cfg = 0" and "\<forall>n. \<not> fails n"
    and "int (length tx) < 2 ^ 62" and "length tx \<le> fuel"
  shows "snd (ChunkByTokens fuel cfg fails (Some tx)) = Return None \<and>
         tokenize (join (map content (fst (ChunkByTokens fuel cfg fails (Some tx)))) [32]) =
           tokenize tx"
proof -
  let ?ts = "tokenize tx"
  have ov: "overlapSize cfg \<le> 0" using assms(2) by simp
  have len: "int (length ?ts) < 2 ^ 62" using length_tokenize [of tx] assms(4) by linarith
  have fuel: "nat (int (length ?ts) - 0) \<le> fuel" using length_tokenize [of tx] assms(5) by simp
  from tokens_loop_total [OF assms(1) ov assms(3) len, of 0 fuel 1] fuel
  have "snd (tokens_loop fuel cfg fails ?ts 0 1) = Return None"
    and "join (map content (fst (tokens_loop fuel cfg fails ?ts 0 1))) [32] = join ?ts [32]"
    by simp_all
  then show ?thesis
    by (simp add: ChunkByTokens_def tokenize_join [OF tokenize_wf])
qed

lemmas tokens_eval = ChunkByTokens_def tokenize_def runes_def is_space_def is_punct_def
  window_end_def add64_def sub64_def slice_def writeTextChunk_def advance_def

text \<open>
  The three chunks of that run.
\<close>

lemma tokens_example:
  "ChunkByTokens 9 (flags ''tokens'' 2 0) (\<lambda>n. False) (Some (runes ''say: a, b'')) =
    ([\<lparr>chunkNo = 1, content = runes ''say :'', startPos = 0, endPos = 2\<rparr>,
      \<lparr>chunkNo = 2, content = runes ''a ,'', startPos = 2, endPos = 4\<rparr>,
      \<lparr>chunkNo = 3, content = runes ''b'', startPos = 4, endPos = 5\<rparr>], Return None)"
  by (simp add: tokens_eval cfg_simps eval_nat_numeral)

text \<open>
  The text \<^verbatim>\<open>say: a, b\<close> has five tokens; two tokens a chunk.
\<close>

theorem tokens_reassemble_witness:
  "0 < chunkSize (flags ''tokens'' 2 0) \<and> overlapSize (flags ''tokens'' 2 0) = 0 \<and>
   (\<forall>n. \<not> (\<lambda>n. False) n) \<and> int (length (runes ''say: a, b'')) < 2 ^ 62 \<and>
   length (runes ''say: a, b'') \<le> 9 \<and>
   snd (ChunkByTokens 9 (flags ''tokens'' 2 0) (\<lambda>n. False) (Some (runes ''say: a, b''))) = Return None \<and>
   tokenize (join (map content (fst (ChunkByTokens 9 (flags ''tokens'' 2 0) (\<lambda>n. False)
       (Some (runes ''say: a, b''))))) [32]) = tokenize (runes ''say: a, b'')"
proof -
  have a: "0 < chunkSize (flags ''tokens'' 2 0)" and b: "overlapSize (flags ''tokens'' 2 0) = 0"
    by (simp_all add: cfg_simps)
  have c: "\<forall>n. \<not> (\<lambda>n::int. False) n" by simp
  have d: "int (length (runes ''say: a, b'')) < 2 ^ 62" and e: "length (runes ''say: a, b'') \<le> 9"
    by (simp_all add: runes_def)
  from tokens_reassemble [OF a b c d e] a b c d e show ?thesis by blast
qed

section \<open>Both loops with an overlap\<close>

lemma advance_overlap:
  assumes "0 < overlapSize cfg" and "0 \<le> r" and "r < 2 ^ 63"
  shows "advance cfg r = (if r - overlapSize cfg < 0 then r else r - overlapSize cfg)"
proof -
  have "sub64 r (overlapSize cfg) = r - overlapSize cfg"
    using assms overlapSize_range [of cfg] by (intro sub64_plain) simp_all
  then show ?thesis using assms(1) by (simp add: advance_def Let_def)
qed

lemma advance_stays_inside:
  assumes "0 < overlapSize cfg" and "overlapSize cfg \<le> len" and "len < 2 ^ 62"
    and "0 < r" and "r \<le> len"
  shows "0 \<le> advance cfg r \<and> advance cfg r < len"
proof -
  have "advance cfg r = (if r - overlapSize cfg < 0 then r else r - overlapSize cfg)"
    using assms by (intro advance_overlap) simp_all
  then show ?thesis using assms by auto
qed

text \<open>
  With an overlap the cursor is set back from the end of every chunk, also from the
  end of the last one: once the window has reached the end of the text, the next start
  is \<open>len - OverlapSize\<close>, which is below \<open>len\<close> again. So on a text of at least
  \<open>OverlapSize\<close> bytes the loop writes a chunk in every iteration and never leaves.
\<close>

lemma chars_overlap_unfinished:
  assumes ov: "0 < overlapSize cfg" and sz: "overlapSize cfg < chunkSize cfg"
    and szb: "chunkSize cfg < 2 ^ 62" and nf: "\<forall>n. \<not> fails n"
    and len: "int (length tx) < 2 ^ 62" and ovl: "overlapSize cfg \<le> int (length tx)"
  shows "0 \<le> start \<Longrightarrow> start < int (length tx) \<Longrightarrow>
     snd (chars_loop fuel cfg fails tx start n) = Unfinished \<and>
     length (fst (chars_loop fuel cfg fails tx start n)) = fuel"
proof (induction fuel arbitrary: start n)
  case 0
  then show ?case by simp
next
  case (Suc fuel)
  have len63: "int (length tx) < 2 ^ 63" using len by simp
  have size: "0 < chunkSize cfg" using ov sz by simp
  have "start + chunkSize cfg < 2 ^ 63" using Suc.prems(2) len szb by simp
  from chunk_end_progress [OF Suc.prems(1,2) len63 size this]
  obtain r where r: "chunk_end cfg tx start = Some r" "start < r" "r \<le> int (length tx)"
    by blast
  have nfn: "\<not> fails n" using nf by simp
  have step: "chars_loop (Suc fuel) cfg fails tx start n =
      emit \<lparr>chunkNo = n, content = take (nat (r - start)) (drop (nat start) tx),
             startPos = start, endPos = r\<rparr>
        (chars_loop fuel cfg fails tx (advance cfg r) (n + 1))"
    using chars_loop_step [where fails = fails and n = n and fuel = fuel,
        OF Suc.prems(2) r(1) Suc.prems(1) _ r(3) nfn] r(2)
    by simp
  have "0 < r" using Suc.prems(1) r(2) by simp
  from advance_stays_inside [OF ov ovl len this r(3)]
  have "snd (chars_loop fuel cfg fails tx (advance cfg r) (n + 1)) = Unfinished \<and>
     length (fst (chars_loop fuel cfg fails tx (advance cfg r) (n + 1))) = fuel"
    using Suc.IH by blast
  then show ?case unfolding step by simp
qed

text \<open>
  The token loop moves its cursor by the same lines.
\<close>

lemma tokens_overlap_unfinished:
  assumes ov: "0 < overlapSize cfg" and sz: "overlapSize cfg < chunkSize cfg"
    and szb: "chunkSize cfg < 2 ^ 62" and nf: "\<forall>n. \<not> fails n"
    and len: "int (length ts) < 2 ^ 62" and ovl: "overlapSize cfg \<le> int (length ts)"
  shows "0 \<le> start \<Longrightarrow> start < int (length ts) \<Longrightarrow>
     snd (tokens_loop fuel cfg fails ts start n) = Unfinished \<and>
     length (fst (tokens_loop fuel cfg fails ts start n)) = fuel"
proof (induction fuel arbitrary: start n)
  case 0
  then show ?case by simp
next
  case (Suc fuel)
  let ?len = "int (length ts)"
  have size: "0 < chunkSize cfg" using ov sz by simp
  have bound: "start + chunkSize cfg < 2 ^ 63" using Suc.prems(2) len szb by simp
  define r where "r = window_end cfg ?len start"
  have r: "r = min (start + chunkSize cfg) ?len"
    unfolding r_def by (rule window_end_plain [OF Suc.prems(1) size bound])
  have r1: "start < r" and r2: "r \<le> ?len" using r size Suc.prems(2) by simp_all
  have nfn: "\<not> fails n" using nf by simp
  have step: "tokens_loop (Suc fuel) cfg fails ts start n =
      emit \<lparr>chunkNo = n, content = join (take (nat (r - start)) (drop (nat start) ts)) [32],
             startPos = start, endPos = r\<rparr>
        (tokens_loop fuel cfg fails ts (advance cfg r) (n + 1))"
    using tokens_loop_step [where fails = fails and n = n and fuel = fuel,
        OF Suc.prems(2) r_def [symmetric] Suc.prems(1) _ r2 nfn] r1
    by simp
  have "0 < r" using Suc.prems(1) r1 by simp
  from advance_stays_inside [OF ov ovl len this r2]
  have "snd (tokens_loop fuel cfg fails ts (advance cfg r) (n + 1)) = Unfinished \<and>
     length (fst (tokens_loop fuel cfg fails ts (advance cfg r) (n + 1))) = fuel"
    using Suc.IH by blast
  then show ?case unfolding step by simp
qed

lemma tokenize_a_b: "tokenize (runes ''a b'') = [[97], [98]]"
  by (simp add: tokenize_def runes_def is_space_def is_punct_def)

text \<open>
  Claim C1 asks that both loops end whenever \<open>0 \<le> OverlapSize < ChunkSize\<close>. They do
  not. With chunk size 2 and overlap 1, character mode on the text \<^verbatim>\<open>ab\<close> and token
  mode on the text \<^verbatim>\<open>a b\<close> are still inside their loops after any number of
  iterations, every file creation succeeding, and have written one chunk per
  iteration.
\<close>

theorem overlap_never_returns:
  "snd (ChunkByCharacters fuel (flags ''chars'' 2 1) (\<lambda>n. False) (Some ''ab'')) = Unfinished \<and>
   length (fst (ChunkByCharacters fuel (flags ''chars'' 2 1) (\<lambda>n. False) (Some ''ab''))) = fuel \<and>
   snd (ChunkByTokens fuel (flags ''tokens'' 2 1) (\<lambda>n. False) (Some (runes ''a b''))) = Unfinished \<and>
   length (fst (ChunkByTokens fuel (flags ''tokens'' 2 1) (\<lambda>n. False) (Some (runes ''a b'')))) = fuel"
proof -
  have "snd (chars_loop fuel (flags ''chars'' 2 1) (\<lambda>n. False) ''ab'' 0 1) = Unfinished \<and>
     length (fst (chars_loop fuel (flags ''chars'' 2 1) (\<lambda>n. False) ''ab'' 0 1)) = fuel"
    by (rule chars_overlap_unfinished) (simp_all add: cfg_simps)
  moreover
  have "snd (tokens_loop fuel (flags ''tokens'' 2 1) (\<lambda>n. False) [[97], [98]] 0 1) = Unfinished \<and>
     length (fst (tokens_loop fuel (flags ''tokens'' 2 1) (\<lambda>n. False) [[97], [98]] 0 1)) = fuel"
    by (rule tokens_overlap_unfinished) (simp_all add: cfg_simps)
  ultimately show ?thesis
    by (simp add: ChunkByCharacters_def ChunkByTokens_def tokenize_a_b)
qed

text \<open>
  The first three iterations on \<^verbatim>\<open>ab\<close>: from the second on, the same window again.
\<close>

lemma chars_ab_three:
  "ChunkByCharacters 3 (flags ''chars'' 2 1) (\<lambda>n. False) (Some ''ab'') =
    ([\<lparr>chunkNo = 1, content = ''ab'', startPos = 0, endPos = 2\<rparr>,
      \<lparr>chunkNo = 2, content = ''b'', startPos = 1, endPos = 2\<rparr>,
      \<lparr>chunkNo = 3, content = ''b'', startPos = 1, endPos = 2\<rparr>], Unfinished)"
  by (simp add: chars_eval cfg_simps eval_nat_numeral)

end
